theory Spec2Isabelle
  imports Main "HOL-Library.Sublist"
begin

section \<open>Reading shapefiles from ZIP archives (zipreader.go)\<close>

text \<open>
  A Go \<^verbatim>\<open>error\<close> value is modelled by its message (what \<^verbatim>\<open>Error()\<close> returns);
  a \<^verbatim>\<open>nil\<close> error is \<open>None\<close> of \<open>error option\<close>, and a function returning
  \<^verbatim>\<open>(value, error)\<close> returns \<open>error + value\<close> (\<open>Inl\<close> the error).
\<close>

type_synonym error = string

subsection \<open>The string functions the code calls\<close>

text \<open>
  \<^verbatim>\<open>strings.HasSuffix\<close>: \<^verbatim>\<open>len(s) >= len(suffix) && s[len(s)-len(suffix):] == suffix\<close>;
  \<^verbatim>\<open>strings.TrimSuffix\<close>: \<^verbatim>\<open>s[:len(s)-len(suffix)]\<close> if the suffix is there, else \<^verbatim>\<open>s\<close>.
  Strings are compared byte by byte.
\<close>

definition strings_HasSuffix :: "string \<Rightarrow> string \<Rightarrow> bool" where
  "strings_HasSuffix s suf =
     (length suf \<le> length s \<and> drop (length s - length suf) s = suf)"

definition strings_TrimSuffix :: "string \<Rightarrow> string \<Rightarrow> string" where
  "strings_TrimSuffix s suf =
     (if strings_HasSuffix s suf then take (length s - length suf) s else s)"

text \<open>
  \<^verbatim>\<open>path.Ext\<close>:
  \<^verbatim>\<open>for i := len(path) - 1; i >= 0 && path[i] != '/'; i-- { if path[i] == '.' { return path[i:] } }; return ""\<close>.
  \<open>Ext_loop path (Suc i)\<close> is the loop at index \<open>i\<close>, \<open>Ext_loop path 0\<close> the loop
  past index 0.
\<close>

fun Ext_loop :: "string \<Rightarrow> nat \<Rightarrow> string" where
  "Ext_loop path 0 = []"
| "Ext_loop path (Suc i) =
     (if path ! i = CHR ''/'' then []
      else if path ! i = CHR ''.'' then drop i path
      else Ext_loop path i)"

definition path_Ext :: "string \<Rightarrow> string" where
  "path_Ext path = Ext_loop path (length path)"

subsection \<open>The archive: entries, readers, handles\<close>

text \<open>
  A \<^verbatim>\<open>zip.File\<close> is an entry of the archive's directory: its \<^verbatim>\<open>Name\<close>, and what its
  \<^verbatim>\<open>Open()\<close> returns, a stream of type \<open>'s\<close> (an \<^verbatim>\<open>io.ReadCloser\<close>) or an error.
  A \<^verbatim>\<open>zip.Reader\<close> holds the directory \<^verbatim>\<open>File\<close> in the archive's order.
\<close>

record 's zip_File =
  Name :: string
  Open :: "error + 's"

record 's zip_Reader =
  File :: "'s zip_File list"

text \<open>
  The world outside the package. \<open>OpenReader_at\<close> is what \<^verbatim>\<open>zip.OpenReader\<close> finds at
  a path: an error, or an archive, which is its directory together with what the
  successive calls of \<^verbatim>\<open>Close\<close> on a handle of it will report (\<open>a_Close k\<close> for the
  call after \<open>k\<close> earlier ones). \<open>NewReader_of\<close> is what \<^verbatim>\<open>zip.NewReader\<close> makes of a
  byte string. \<open>handles\<close> are the \<^verbatim>\<open>*zip.ReadCloser\<close> values handed out so far, a
  pointer being the index; each counts the calls of \<^verbatim>\<open>Close\<close> it has received.
  \<open>opened\<close> logs the names of the entries on which \<^verbatim>\<open>Open()\<close> was called.
\<close>

record 's archive =
  a_Reader :: "'s zip_Reader"
  a_Close :: "nat \<Rightarrow> error option"

record 's handle =
  Reader :: "'s zip_Reader"
  h_Close :: "nat \<Rightarrow> error option"
  closes :: nat

record 's world =
  OpenReader_at :: "string \<Rightarrow> error + 's archive"
  NewReader_of :: "string \<Rightarrow> error + 's zip_Reader"
  handles :: "'s handle list"
  opened :: "string list"

definition zip_OpenReader :: "string \<Rightarrow> 's world \<Rightarrow> (error + nat) \<times> 's world" where
  "zip_OpenReader name w =
     (case OpenReader_at w name of
        Inl err \<Rightarrow> (Inl err, w)
      | Inr a \<Rightarrow>
          (Inr (length (handles w)),
           w\<lparr>handles := handles w @ [\<lparr>Reader = a_Reader a, h_Close = a_Close a, closes = 0\<rparr>]\<rparr>))"

definition zip_NewReader :: "string \<Rightarrow> 's world \<Rightarrow> error + 's zip_Reader" where
  "zip_NewReader byteData w = NewReader_of w byteData"

text \<open>
  \<^verbatim>\<open>(*zip.ReadCloser).Close\<close> on the handle \<open>p\<close>. A pointer that no
  \<^verbatim>\<open>zip.OpenReader\<close> returned does not occur; the model leaves the world alone there.
\<close>

definition ReadCloser_Close :: "nat \<Rightarrow> 's world \<Rightarrow> error option \<times> 's world" where
  "ReadCloser_Close p w =
     (if p < length (handles w)
      then (let h = handles w ! p
            in (h_Close h (closes h),
                w\<lparr>handles := (handles w)[p := h\<lparr>closes := Suc (closes h)\<rparr>]\<rparr>))
      else (None, w))"

definition File_Open :: "'s zip_File \<Rightarrow> 's world \<Rightarrow> (error + 's) \<times> 's world" where
  "File_Open f w = (Open f, w\<lparr>opened := opened w @ [Name f]\<rparr>)"

subsection \<open>openFromZIP and shapesInZip\<close>

fun openFromZIP_loop :: "'s zip_File list \<Rightarrow> string \<Rightarrow> 's world \<Rightarrow> (error + 's) \<times> 's world" where
  "openFromZIP_loop [] name w = (Inl (''No such file in archive: '' @ name), w)"
| "openFromZIP_loop (f # fs) name w =
     (if Name f = name then File_Open f w else openFromZIP_loop fs name w)"

definition openFromZIP :: "'s zip_Reader \<Rightarrow> string \<Rightarrow> 's world \<Rightarrow> (error + 's) \<times> 's world" where
  "openFromZIP rd name w = openFromZIP_loop (File rd) name w"

definition shapesInZip :: "'s zip_Reader \<Rightarrow> 's zip_File list" where
  "shapesInZip rd = filter (\<lambda>f. strings_HasSuffix (Name f) ''.shp'') (File rd)"

subsection \<open>fmt.Errorf on a format without operands\<close>

text \<open>
  \<^verbatim>\<open>Close\<close> passes the collected text to \<^verbatim>\<open>fmt.Errorf\<close> as the format, with no
  operands. The formatter copies the text up to a \<^verbatim>\<open>%\<close>, then reads flags, an
  argument index \<^verbatim>\<open>[n]\<close>, a width, a precision, again an index, and the verb.
  With no operand to print, \<^verbatim>\<open>%%\<close> gives \<^verbatim>\<open>%\<close>, a verb \<^verbatim>\<open>v\<close> gives
  \<^verbatim>\<open>%!v(MISSING)\<close> (\<^verbatim>\<open>%!v(BADINDEX)\<close> after an index), a \<^verbatim>\<open>*\<close> gives
  \<^verbatim>\<open>%!(BADWIDTH)\<close> or \<^verbatim>\<open>%!(BADPREC)\<close>, and a format that ends inside a
  specification gives \<^verbatim>\<open>%!(NOVERB)\<close>.
\<close>

definition is_flag :: "char \<Rightarrow> bool" where
  "is_flag c = (c \<in> set ''#0+- '')"

definition is_digit :: "char \<Rightarrow> bool" where
  "is_digit c = (48 \<le> (of_char c :: nat) \<and> (of_char c :: nat) \<le> 57)"

text \<open>
  \<^verbatim>\<open>parsenum\<close> reads decimal digits; a number that has passed \<open>10\<^sup>6\<close> with a digit
  still to come is given up, and the position moves to the end of the format.
  The result is whether a number was read, and the rest of the format.
\<close>

fun parsenum :: "nat \<Rightarrow> bool \<Rightarrow> string \<Rightarrow> bool \<times> string" where
  "parsenum num isnum [] = (isnum, [])"
| "parsenum num isnum (c # cs) =
     (if is_digit c
      then (if 1000000 < num then (False, [])
            else parsenum (num * 10 + (of_char c - 48)) True cs)
      else (isnum, c # cs))"

text \<open>
  \<^verbatim>\<open>parseArgNumber\<close> on a format that starts with \<^verbatim>\<open>[\<close>: the number of bytes to
  skip, and whether \<^verbatim>\<open>[n]\<close> was well formed.
\<close>

definition parseArgNumber :: "string \<Rightarrow> nat \<times> bool" where
  "parseArgNumber fm =
     (if length fm < 3 then (1, False)
      else (let inner = takeWhile (\<lambda>c. c \<noteq> CHR '']'') (tl fm)
            in if length inner = length (tl fm) then (1, False)
               else (case parsenum 0 False inner of
                       (ok, rest) \<Rightarrow> (length inner + 2, ok \<and> rest = []))))"

text \<open>
  \<^verbatim>\<open>argNumber\<close> with no operands: the rest of the format, whether an index was found,
  and whether the argument number is still good. No index is in range.
\<close>

definition argNumber :: "string \<Rightarrow> string \<times> bool \<times> bool" where
  "argNumber fm =
     (if fm \<noteq> [] \<and> hd fm = CHR ''[''
      then (case parseArgNumber fm of (wid, ok) \<Rightarrow> (drop wid fm, ok, False))
      else (fm, False, True))"

text \<open>
  \<^verbatim>\<open>utf8.DecodeRuneInString\<close> followed by \<^verbatim>\<open>writeRune\<close>, on a non-empty string: the
  bytes written for the verb and the number of bytes read. A byte sequence that is
  not valid UTF-8 reads one byte and writes U+FFFD.
\<close>

definition RuneError :: string where
  "RuneError = [char_of (239 :: nat), char_of (191 :: nat), char_of (189 :: nat)]"

definition DecodeRune :: "string \<Rightarrow> string \<times> nat" where
  "DecodeRune s =
     (let b = (\<lambda>i. (of_char (s ! i) :: nat)); b0 = b 0
      in if b0 < 128 then ([s ! 0], 1)
         else if b0 < 194 \<or> 244 < b0 then (RuneError, 1)
         else (let sz = (if b0 < 224 then 2 else if b0 < 240 then 3 else 4 :: nat);
                   lo = (if b0 = 224 then 160 else if b0 = 240 then 144 else 128 :: nat);
                   hi = (if b0 = 237 then 159 else if b0 = 244 then 143 else 191 :: nat)
               in if length s < sz then (RuneError, 1)
                  else if b 1 < lo \<or> hi < b 1 then (RuneError, 1)
                  else if sz \<le> 2 then (take 2 s, 2)
                  else if b 2 < 128 \<or> 191 < b 2 then (RuneError, 1)
                  else if sz \<le> 3 then (take 3 s, 3)
                  else if b 3 < 128 \<or> 191 < b 3 then (RuneError, 1)
                  else (take 4 s, 4)))"

text \<open>
  The parts of one verb specification. Each takes the format at its position with
  the flags \<^verbatim>\<open>afterIndex\<close> and \<^verbatim>\<open>goodArgNum\<close> and returns what it writes, the rest of
  the format and the two flags.
\<close>

definition width_part :: "string \<Rightarrow> bool \<Rightarrow> bool \<Rightarrow> string \<times> string \<times> bool \<times> bool" where
  "width_part s afterIndex good =
     (if s \<noteq> [] \<and> hd s = CHR ''*''
      then (''%!(BADWIDTH)'', tl s, False, good)
      else (case parsenum 0 False s of
              (widPresent, t) \<Rightarrow> ([], t, afterIndex, good \<and> \<not> (afterIndex \<and> widPresent))))"

definition prec_part :: "string \<Rightarrow> bool \<Rightarrow> bool \<Rightarrow> string \<times> string \<times> bool \<times> bool" where
  "prec_part s afterIndex good =
     (if s \<noteq> [] \<and> hd s = CHR ''.''
      then (case argNumber (tl s) of
              (t, idx, g) \<Rightarrow>
                (if t \<noteq> [] \<and> hd t = CHR ''*''
                 then (''%!(BADPREC)'', tl t, False, good \<and> \<not> afterIndex \<and> g)
                 else ([], snd (parsenum 0 False t), idx, good \<and> \<not> afterIndex \<and> g)))
      else ([], s, afterIndex, good))"

definition verb_part :: "string \<Rightarrow> bool \<Rightarrow> string \<times> string" where
  "verb_part s good =
     (if s = [] then (''%!(NOVERB)'', [])
      else (case DecodeRune s of
              (verb, n) \<Rightarrow>
                (if verb = ''%'' then ''%''
                 else if \<not> good then ''%!'' @ verb @ ''(BADINDEX)''
                 else ''%!'' @ verb @ ''(MISSING)'',
                 drop n s)))"

text \<open>
  One verb specification, on the format after its \<^verbatim>\<open>%\<close>: what is written, and the
  rest of the format.
\<close>

definition verb_spec :: "string \<Rightarrow> string \<times> string" where
  "verb_spec s0 =
     (case argNumber (dropWhile is_flag s0) of
        (s1, idx1, good1) \<Rightarrow>
     (case width_part s1 idx1 good1 of
        (out_w, s2, idx2, good2) \<Rightarrow>
     (case prec_part s2 idx2 good2 of
        (out_p, s3, idx3, good3) \<Rightarrow>
     (case (if \<not> idx3 then (case argNumber s3 of (t, idx, g) \<Rightarrow> (t, good3 \<and> g))
            else (s3, good3)) of
        (s4, good4) \<Rightarrow>
     (case verb_part s4 good4 of
        (out_v, rest) \<Rightarrow> (out_w @ out_p @ out_v, rest))))))"

lemma parsenum_length: "length (snd (parsenum num isnum s)) \<le> length s"
  by (induction s arbitrary: num isnum) (simp_all add: le_SucI)

lemma argNumber_length: "length (fst (argNumber s)) \<le> length s"
  by (simp add: argNumber_def split: prod.splits)

lemma width_part_length: "length (fst (snd (width_part s a g))) \<le> length s"
  using parsenum_length [of 0 False s]
  by (auto simp: width_part_def split: prod.splits)

lemma prec_part_length: "length (fst (snd (prec_part s a g))) \<le> length s"
proof (cases "s \<noteq> [] \<and> hd s = CHR ''.''")
  case False
  then have "prec_part s a g = ([], s, a, g)"
    unfolding prec_part_def by (rule if_not_P)
  then show ?thesis by simp
next
  case True
  obtain t idx g' where t: "argNumber (tl s) = (t, idx, g')"
    by (cases "argNumber (tl s)") auto
  have l1: "length t \<le> length (tl s)"
    using argNumber_length [of "tl s"] t by simp
  have l2: "length (snd (parsenum 0 False t)) \<le> length t"
    by (rule parsenum_length)
  from True t l1 l2 show ?thesis
    by (auto simp: prec_part_def)
qed

lemma verb_part_length: "length (snd (verb_part s g)) \<le> length s"
  by (simp add: verb_part_def split: prod.splits)

lemma verb_spec_length: "length (snd (verb_spec s)) \<le> length s"
proof -
  obtain s1 idx1 good1 where a1: "argNumber (dropWhile is_flag s) = (s1, idx1, good1)"
    by (cases "argNumber (dropWhile is_flag s)") auto
  obtain out_w s2 idx2 good2 where a2: "width_part s1 idx1 good1 = (out_w, s2, idx2, good2)"
    by (cases "width_part s1 idx1 good1") auto
  obtain out_p s3 idx3 good3 where a3: "prec_part s2 idx2 good2 = (out_p, s3, idx3, good3)"
    by (cases "prec_part s2 idx2 good2") auto
  obtain s4 good4 where a4:
    "(if \<not> idx3 then (case argNumber s3 of (t, idx, g) \<Rightarrow> (t, good3 \<and> g)) else (s3, good3))
       = (s4, good4)"
    by (cases "(if \<not> idx3 then (case argNumber s3 of (t, idx, g) \<Rightarrow> (t, good3 \<and> g))
                else (s3, good3))") auto
  have l0: "length (dropWhile is_flag s) \<le> length s"
    by (rule length_dropWhile_le)
  have l1: "length s1 \<le> length (dropWhile is_flag s)"
    using argNumber_length [of "dropWhile is_flag s"] a1 by simp
  have l2: "length s2 \<le> length s1"
    using width_part_length [of s1 idx1 good1] a2 by simp
  have l3: "length s3 \<le> length s2"
    using prec_part_length [of s2 idx2 good2] a3 by simp
  have l4: "length s4 \<le> length s3"
    using argNumber_length [of s3] a4 by (auto split: if_splits prod.splits)
  have l5: "length (snd (verb_part s4 good4)) \<le> length s4"
    by (rule verb_part_length)
  have "snd (verb_spec s) = snd (verb_part s4 good4)"
    by (simp add: verb_spec_def a1 a2 a3 a4 split: prod.splits)
  with l0 l1 l2 l3 l4 l5 show ?thesis by simp
qed

function doPrintf :: "string \<Rightarrow> string" where
  "doPrintf [] = []"
| "doPrintf (c # cs) =
     (if c \<noteq> CHR ''%'' then c # doPrintf cs
      else (case verb_spec cs of (out, rest) \<Rightarrow> out @ doPrintf rest))"
  by pat_completeness auto
termination
proof (relation "measure length")
  show "wf (measure length)" by simp
next
  fix c :: char and cs :: string
  show "(cs, c # cs) \<in> measure length" by simp
next
  fix c :: char and cs x y
  assume "(x, y) = verb_spec cs"
  then have "y = snd (verb_spec cs)" by (metis snd_conv)
  then show "(y, c # cs) \<in> measure length"
    using verb_spec_length [of cs] by simp
qed

definition fmt_Errorf :: "string \<Rightarrow> error" where
  "fmt_Errorf fm = doPrintf fm"

subsection \<open>The facade\<close>

text \<open>
  The \<^verbatim>\<open>SequentialReader\<close> interface and \<^verbatim>\<open>SequentialReaderFromExt\<close> are declared
  elsewhere in the package and are taken as a parameter: a table of methods over a
  reader state \<open>'r\<close>. A method returns its results and the reader's next state, since
  an implementation of the interface may change its state in any method.
  \<^verbatim>\<open>SequentialReaderFromExt(shp, dbf)\<close> takes the primary stream and the companion
  stream, \<open>None\<close> for a \<^verbatim>\<open>nil\<close> companion.
\<close>

record ('s, 'r, 'shape, 'field) SequentialReader =
  SequentialReaderFromExt :: "'s \<Rightarrow> 's option \<Rightarrow> 'r"
  sr_Next :: "'r \<Rightarrow> bool \<times> 'r"
  sr_Shape :: "'r \<Rightarrow> (int \<times> 'shape) \<times> 'r"
  sr_Attribute :: "int \<Rightarrow> 'r \<Rightarrow> string \<times> 'r"
  sr_Fields :: "'r \<Rightarrow> 'field list \<times> 'r"
  sr_Err :: "'r \<Rightarrow> error option \<times> 'r"
  sr_Close :: "'r \<Rightarrow> error option \<times> 'r"

text \<open>
  \<^verbatim>\<open>ZipReader\<close>: \<open>sr\<close> is \<open>None\<close> while the interface value is \<^verbatim>\<open>nil\<close>, \<open>file\<close> is
  the \<^verbatim>\<open>*zip.ReadCloser\<close>, \<open>None\<close> for \<^verbatim>\<open>nil\<close>. A method call on a \<^verbatim>\<open>nil\<close>
  interface value panics.
\<close>

record ('s, 'r) ZipReader =
  sr :: "'r option"
  z :: "'s zip_Reader"
  "file" :: "nat option"

datatype 'a outcome = Panic | Returns 'a

definition loadSHPAndMaybeDBF ::
  "('s, 'r, 'shape, 'field) SequentialReader \<Rightarrow> ('s, 'r) ZipReader \<Rightarrow> 's world
     \<Rightarrow> error option \<times> ('s, 'r) ZipReader \<times> 's world" where
  "loadSHPAndMaybeDBF I zr w =
     (let shapeFiles = shapesInZip (z zr)
      in if length shapeFiles = 0
         then (Some ''archive does not contain a .shp file'', zr, w)
         else if 1 < length shapeFiles
         then (Some ''archive does contain multiple .shp files'', zr, w)
         else (case openFromZIP (z zr) (Name (shapeFiles ! 0)) w of
                 (Inl err, w1) \<Rightarrow> (Some err, zr, w1)
               | (Inr shp, w1) \<Rightarrow>
                   (let withoutExt = strings_TrimSuffix (Name (shapeFiles ! 0)) ''.shp''
                    in case openFromZIP (z zr) (withoutExt @ ''.dbf'') w1 of
                         (dbf, w2) \<Rightarrow>
                           (None,
                            zr\<lparr>sr := Some (SequentialReaderFromExt I shp
                                            (case dbf of Inl _ \<Rightarrow> None | Inr d \<Rightarrow> Some d))\<rparr>,
                            w2))))"

definition OpenZip ::
  "('s, 'r, 'shape, 'field) SequentialReader \<Rightarrow> string \<Rightarrow> 's world
     \<Rightarrow> (error + ('s, 'r) ZipReader) \<times> 's world" where
  "OpenZip I zipFilePath w =
     (case zip_OpenReader zipFilePath w of
        (Inl err, w1) \<Rightarrow> (Inl err, w1)
      | (Inr p, w1) \<Rightarrow>
          (let zr = \<lparr>sr = None, z = Reader (handles w1 ! p), file = Some p\<rparr>
           in case loadSHPAndMaybeDBF I zr w1 of
                (Some err, _, w2) \<Rightarrow> (Inl err, w2)
              | (None, zr', w2) \<Rightarrow> (Inr zr', w2)))"

text \<open>
  The stream given to \<^verbatim>\<open>OpenZipReader\<close> is modelled by what \<^verbatim>\<open>ioutil.ReadAll\<close>
  returns on it: an error or all its bytes.
\<close>

definition OpenZipReader ::
  "('s, 'r, 'shape, 'field) SequentialReader \<Rightarrow> error + string \<Rightarrow> 's world
     \<Rightarrow> (error + ('s, 'r) ZipReader) \<times> 's world" where
  "OpenZipReader I zipFileStream w =
     (case zipFileStream of
        Inl err \<Rightarrow> (Inl err, w)
      | Inr byteData \<Rightarrow>
          (case zip_NewReader byteData w of
             Inl err \<Rightarrow> (Inl err, w)
           | Inr rd \<Rightarrow>
               (let zr = \<lparr>sr = None, z = rd, file = None\<rparr>
                in case loadSHPAndMaybeDBF I zr w of
                     (Some err, _, w2) \<Rightarrow> (Inl err, w2)
                   | (None, zr', w2) \<Rightarrow> (Inr zr', w2))))"

definition ShapesInZip :: "string \<Rightarrow> 's world \<Rightarrow> (error + string list) \<times> 's world" where
  "ShapesInZip zipFilePath w =
     (case zip_OpenReader zipFilePath w of
        (Inl err, w1) \<Rightarrow> (Inl err, w1)
      | (Inr p, w1) \<Rightarrow> (Inr (map Name (shapesInZip (Reader (handles w1 ! p)))), w1))"

definition OpenShapeFromZip ::
  "('s, 'r, 'shape, 'field) SequentialReader \<Rightarrow> string \<Rightarrow> string \<Rightarrow> 's world
     \<Rightarrow> (error + ('s, 'r) ZipReader) \<times> 's world" where
  "OpenShapeFromZip I zipFilePath name w =
     (case zip_OpenReader zipFilePath w of
        (Inl err, w1) \<Rightarrow> (Inl err, w1)
      | (Inr p, w1) \<Rightarrow>
          (let zr = \<lparr>sr = None, z = Reader (handles w1 ! p), file = Some p\<rparr>
           in case openFromZIP (z zr) name w1 of
                (Inl err, w2) \<Rightarrow> (Inl err, w2)
              | (Inr shp, w2) \<Rightarrow>
                  (let pre = strings_TrimSuffix name (path_Ext name)
                   in case openFromZIP (z zr) (pre @ ''.dbf'') w2 of
                        (dbf, w3) \<Rightarrow>
                          (Inr (zr\<lparr>sr := Some (SequentialReaderFromExt I shp
                                                (case dbf of Inl _ \<Rightarrow> None | Inr d \<Rightarrow> Some d))\<rparr>),
                           w3))))"

definition Close ::
  "('s, 'r, 'shape, 'field) SequentialReader \<Rightarrow> ('s, 'r) ZipReader \<Rightarrow> 's world
     \<Rightarrow> (error option \<times> ('s, 'r) ZipReader \<times> 's world) outcome" where
  "Close I zr w =
     (case sr zr of
        None \<Rightarrow> Panic
      | Some r \<Rightarrow>
          (case sr_Close I r of
             (err, r') \<Rightarrow>
               (let s1 = (case err of Some e \<Rightarrow> [] @ e @ ''. '' | None \<Rightarrow> []);
                    (s2, w') =
                       (case file zr of
                          None \<Rightarrow> (s1, w)
                        | Some p \<Rightarrow>
                            (case ReadCloser_Close p w of
                               (Some e, w1) \<Rightarrow> (s1 @ e @ ''. '', w1)
                             | (None, w1) \<Rightarrow> (s1, w1)))
                in Returns (if s2 \<noteq> [] then Some (fmt_Errorf s2) else None,
                            zr\<lparr>sr := Some r'\<rparr>, w'))))"

definition Next ::
  "('s, 'r, 'shape, 'field) SequentialReader \<Rightarrow> ('s, 'r) ZipReader
     \<Rightarrow> (bool \<times> ('s, 'r) ZipReader) outcome" where
  "Next I zr =
     (case sr zr of None \<Rightarrow> Panic
      | Some r \<Rightarrow> (case sr_Next I r of (b, r') \<Rightarrow> Returns (b, zr\<lparr>sr := Some r'\<rparr>)))"

definition Shape ::
  "('s, 'r, 'shape, 'field) SequentialReader \<Rightarrow> ('s, 'r) ZipReader
     \<Rightarrow> ((int \<times> 'shape) \<times> ('s, 'r) ZipReader) outcome" where
  "Shape I zr =
     (case sr zr of None \<Rightarrow> Panic
      | Some r \<Rightarrow> (case sr_Shape I r of (v, r') \<Rightarrow> Returns (v, zr\<lparr>sr := Some r'\<rparr>)))"

definition Attribute ::
  "('s, 'r, 'shape, 'field) SequentialReader \<Rightarrow> int \<Rightarrow> ('s, 'r) ZipReader
     \<Rightarrow> (string \<times> ('s, 'r) ZipReader) outcome" where
  "Attribute I n zr =
     (case sr zr of None \<Rightarrow> Panic
      | Some r \<Rightarrow> (case sr_Attribute I n r of (v, r') \<Rightarrow> Returns (v, zr\<lparr>sr := Some r'\<rparr>)))"

definition Fields ::
  "('s, 'r, 'shape, 'field) SequentialReader \<Rightarrow> ('s, 'r) ZipReader
     \<Rightarrow> ('field list \<times> ('s, 'r) ZipReader) outcome" where
  "Fields I zr =
     (case sr zr of None \<Rightarrow> Panic
      | Some r \<Rightarrow> (case sr_Fields I r of (v, r') \<Rightarrow> Returns (v, zr\<lparr>sr := Some r'\<rparr>)))"

definition Err ::
  "('s, 'r, 'shape, 'field) SequentialReader \<Rightarrow> ('s, 'r) ZipReader
     \<Rightarrow> (error option \<times> ('s, 'r) ZipReader) outcome" where
  "Err I zr =
     (case sr zr of None \<Rightarrow> Panic
      | Some r \<Rightarrow> (case sr_Err I r of (v, r') \<Rightarrow> Returns (v, zr\<lparr>sr := Some r'\<rparr>)))"

subsection \<open>The specification's pair opener\<close>

text \<open>
  The specification derives the companion's name from the primary's by replacing the
  extension, the text from the final dot of the last path element on; a name whose
  last element has no dot is extended. \<open>replace_ext\<close> follows these words.
\<close>

definition replace_ext :: "string \<Rightarrow> string \<Rightarrow> string" where
  "replace_ext name ext =
     (if CHR ''.'' \<in> set (takeWhile (\<lambda>c. c \<noteq> CHR ''/'') (rev name))
      then rev (tl (dropWhile (\<lambda>c. c \<noteq> CHR ''.'') (rev name))) @ ext
      else name @ ext)"

text \<open>
  The specification's paired stream opener: it opens the primary entry, or fails with
  that error; it then looks the companion up under the derived name and takes any
  failure as absence.
\<close>

definition open_pair ::
  "('s, 'r, 'shape, 'field) SequentialReader \<Rightarrow> 's zip_Reader \<Rightarrow> string \<Rightarrow> 's world
     \<Rightarrow> (error + 'r) \<times> 's world" where
  "open_pair I rd primary w =
     (case openFromZIP rd primary w of
        (Inl err, w1) \<Rightarrow> (Inl err, w1)
      | (Inr shp, w1) \<Rightarrow>
          (case openFromZIP rd (replace_ext primary ''.dbf'') w1 of
             (dbf, w2) \<Rightarrow>
               (Inr (SequentialReaderFromExt I shp (case dbf of Inl _ \<Rightarrow> None | Inr d \<Rightarrow> Some d)),
                w2)))"

subsection \<open>Closing, and closing again\<close>

text \<open>
  \<open>result_of\<close> is what a call returns, without the state it leaves; \<open>Close_twice\<close> is
  \<^verbatim>\<open>zr.Close()\<close> followed by a second \<^verbatim>\<open>zr.Close()\<close>; \<open>line_of\<close> is what one
  closing adds to the text \<^verbatim>\<open>s\<close> of \<^verbatim>\<open>Close\<close>.
\<close>

definition result_of :: "('a \<times> 'b) outcome \<Rightarrow> 'a outcome" where
  "result_of x = (case x of Panic \<Rightarrow> Panic | Returns (v, _) \<Rightarrow> Returns v)"

definition Close_twice ::
  "('s, 'r, 'shape, 'field) SequentialReader \<Rightarrow> ('s, 'r) ZipReader \<Rightarrow> 's world
     \<Rightarrow> (error option \<times> ('s, 'r) ZipReader \<times> 's world) outcome" where
  "Close_twice I zr w =
     (case Close I zr w of Panic \<Rightarrow> Panic | Returns (_, zr1, w1) \<Rightarrow> Close I zr1 w1)"

definition line_of :: "error option \<Rightarrow> string" where
  "line_of e = (case e of None \<Rightarrow> [] | Some m \<Rightarrow> m @ ''. '')"

subsection \<open>Call sequences\<close>

text \<open>
  A call of one of the five cursor methods and its reply, on the wrapped reader
  (\<open>reader_call\<close>) and on the facade (\<open>facade_call\<close>, through \<^verbatim>\<open>ZipReader.Next\<close>,
  \<^verbatim>\<open>Shape\<close>, \<^verbatim>\<open>Attribute\<close>, \<^verbatim>\<open>Fields\<close>, \<^verbatim>\<open>Err\<close>), and sequences of calls.
\<close>

datatype call = CallNext | CallShape | CallAttribute int | CallFields | CallErr

datatype ('shape, 'field) reply =
  RNext bool | RShape "int \<times> 'shape" | RAttribute string | RFields "'field list"
  | RErr "error option"

fun reader_call ::
  "('s, 'r, 'shape, 'field) SequentialReader \<Rightarrow> call \<Rightarrow> 'r \<Rightarrow> ('shape, 'field) reply \<times> 'r" where
  "reader_call I CallNext r = (case sr_Next I r of (v, r') \<Rightarrow> (RNext v, r'))"
| "reader_call I CallShape r = (case sr_Shape I r of (v, r') \<Rightarrow> (RShape v, r'))"
| "reader_call I (CallAttribute n) r = (case sr_Attribute I n r of (v, r') \<Rightarrow> (RAttribute v, r'))"
| "reader_call I CallFields r = (case sr_Fields I r of (v, r') \<Rightarrow> (RFields v, r'))"
| "reader_call I CallErr r = (case sr_Err I r of (v, r') \<Rightarrow> (RErr v, r'))"

fun facade_call ::
  "('s, 'r, 'shape, 'field) SequentialReader \<Rightarrow> call \<Rightarrow> ('s, 'r) ZipReader
     \<Rightarrow> (('shape, 'field) reply \<times> ('s, 'r) ZipReader) outcome" where
  "facade_call I CallNext zr =
     (case Next I zr of Panic \<Rightarrow> Panic | Returns (v, zr') \<Rightarrow> Returns (RNext v, zr'))"
| "facade_call I CallShape zr =
     (case Shape I zr of Panic \<Rightarrow> Panic | Returns (v, zr') \<Rightarrow> Returns (RShape v, zr'))"
| "facade_call I (CallAttribute n) zr =
     (case Attribute I n zr of Panic \<Rightarrow> Panic | Returns (v, zr') \<Rightarrow> Returns (RAttribute v, zr'))"
| "facade_call I CallFields zr =
     (case Fields I zr of Panic \<Rightarrow> Panic | Returns (v, zr') \<Rightarrow> Returns (RFields v, zr'))"
| "facade_call I CallErr zr =
     (case Err I zr of Panic \<Rightarrow> Panic | Returns (v, zr') \<Rightarrow> Returns (RErr v, zr'))"

fun reader_run ::
  "('s, 'r, 'shape, 'field) SequentialReader \<Rightarrow> call list \<Rightarrow> 'r
     \<Rightarrow> ('shape, 'field) reply list \<times> 'r" where
  "reader_run I [] r = ([], r)"
| "reader_run I (c # cs) r =
     (case reader_call I c r of
        (v, r') \<Rightarrow> (case reader_run I cs r' of (vs, r'') \<Rightarrow> (v # vs, r'')))"

fun facade_run ::
  "('s, 'r, 'shape, 'field) SequentialReader \<Rightarrow> call list \<Rightarrow> ('s, 'r) ZipReader
     \<Rightarrow> (('shape, 'field) reply list \<times> ('s, 'r) ZipReader) outcome" where
  "facade_run I [] zr = Returns ([], zr)"
| "facade_run I (c # cs) zr =
     (case facade_call I c zr of
        Panic \<Rightarrow> Panic
      | Returns (v, zr') \<Rightarrow>
          (case facade_run I cs zr' of
             Panic \<Rightarrow> Panic
           | Returns (vs, zr'') \<Rightarrow> Returns (v # vs, zr'')))"

subsection \<open>Names that differ in case only\<close>

text \<open>
  Equality of two strings up to the case of the ASCII letters.
\<close>

definition ascii_lower :: "char \<Rightarrow> char" where
  "ascii_lower c =
     (if 65 \<le> (of_char c :: nat) \<and> (of_char c :: nat) \<le> 90
      then char_of (of_char c + 32 :: nat) else c)"

definition eq_fold :: "string \<Rightarrow> string \<Rightarrow> bool" where
  "eq_fold s t = (map ascii_lower s = map ascii_lower t)"

subsection \<open>A sample reader and sample archives\<close>

text \<open>
  A sequential reader over three records that remembers its two streams and counts
  its \<^verbatim>\<open>Close\<close> calls, the call after \<open>k\<close> earlier ones reporting \<open>cl k\<close>; and a
  disk with five archives. They are the concrete inputs of the examples below.
\<close>

record seq_state =
  st_shp :: string
  st_dbf :: "string option"
  st_num :: nat
  st_closes :: nat

definition demo_reader :: "(nat \<Rightarrow> error option) \<Rightarrow> (string, seq_state, unit, string) SequentialReader" where
  "demo_reader cl =
     \<lparr>SequentialReaderFromExt = (\<lambda>shp dbf. \<lparr>st_shp = shp, st_dbf = dbf, st_num = 0, st_closes = 0\<rparr>),
      sr_Next = (\<lambda>r. if st_num r < 3 then (True, r\<lparr>st_num := Suc (st_num r)\<rparr>) else (False, r)),
      sr_Shape = (\<lambda>r. ((int (st_num r) - 1, ()), r)),
      sr_Attribute = (\<lambda>n r. (if st_dbf r = None then [] else ''v'', r)),
      sr_Fields = (\<lambda>r. (if st_dbf r = None then [] else [''NAME''], r)),
      sr_Err = (\<lambda>r. (None, r)),
      sr_Close = (\<lambda>r. (cl (st_closes r), r\<lparr>st_closes := Suc (st_closes r)\<rparr>))\<rparr>"

definition entry :: "string \<Rightarrow> string zip_File" where
  "entry n = \<lparr>Name = n, Open = Inr (''bytes of '' @ n)\<rparr>"

definition demo_disk :: "(nat \<Rightarrow> error option) \<Rightarrow> string \<Rightarrow> error + string archive" where
  "demo_disk cl p =
     (if p = ''parcels.zip'' \<or> p = ''new%20parcels.zip''
      then Inr \<lparr>a_Reader = \<lparr>File = [entry ''parcels.shp'', entry ''parcels.dbf'']\<rparr>, a_Close = cl\<rparr>
      else if p = ''upper.zip''
      then Inr \<lparr>a_Reader = \<lparr>File = [entry ''DATA.SHP'', entry ''DATA.DBF'']\<rparr>, a_Close = cl\<rparr>
      else if p = ''two.zip''
      then Inr \<lparr>a_Reader = \<lparr>File = [entry ''a.shp'', entry ''b/c.shp'', entry ''a.dbf'']\<rparr>, a_Close = cl\<rparr>
      else if p = ''broken.zip''
      then Inr \<lparr>a_Reader = \<lparr>File = [entry ''roads.shp'',
                 \<lparr>Name = ''roads.dbf'', Open = Inl ''zip: unsupported compression algorithm''\<rparr>]\<rparr>,
                a_Close = cl\<rparr>
      else Inl (''open '' @ p @ '': no such file or directory''))"

definition demo_world :: "(nat \<Rightarrow> error option) \<Rightarrow> string world" where
  "demo_world cl =
     \<lparr>OpenReader_at = demo_disk cl,
      NewReader_of = (\<lambda>b. case demo_disk cl b of Inl e \<Rightarrow> Inl ''zip: not a valid zip file''
                              | Inr a \<Rightarrow> Inr (a_Reader a)),
      handles = [], opened = []\<rparr>"

text \<open>
  The facade that \<^verbatim>\<open>OpenZip\<close> returns for \<^verbatim>\<open>parcels.zip\<close> when no handle was
  open before.
\<close>

definition demo_facade :: "(nat \<Rightarrow> error option) \<Rightarrow> (string, seq_state) ZipReader" where
  "demo_facade cl =
     \<lparr>sr = Some \<lparr>st_shp = ''bytes of parcels.shp'', st_dbf = Some ''bytes of parcels.dbf'',
                  st_num = 0, st_closes = 0\<rparr>,
      z = \<lparr>File = [entry ''parcels.shp'', entry ''parcels.dbf'']\<rparr>,
      file = Some 0\<rparr>"

text \<open>
  The world after that \<^verbatim>\<open>OpenZip\<close>: one handle, never closed, and the two entries
  opened.
\<close>

definition demo_opened :: "(nat \<Rightarrow> error option) \<Rightarrow> string world" where
  "demo_opened cl =
     (demo_world cl)
       \<lparr>handles := [\<lparr>Reader = \<lparr>File = [entry ''parcels.shp'', entry ''parcels.dbf'']\<rparr>,
                     h_Close = cl, closes = 0\<rparr>],
        opened := [''parcels.shp'', ''parcels.dbf'']\<rparr>"

text \<open>
  What closing an \<^verbatim>\<open>os.File\<close> reports: the first call succeeds, every later call
  fails with "file already closed".
\<close>

definition go_file_Close :: "string \<Rightarrow> nat \<Rightarrow> error option" where
  "go_file_Close path k =
     (if k = 0 then None else Some (''close '' @ path @ '': file already closed''))"

section \<open>Properties\<close>

subsection \<open>Auxiliary facts\<close>

lemma HasSuffix_iff: "strings_HasSuffix s t \<longleftrightarrow> (\<exists>pre. s = pre @ t)"
proof
  assume "strings_HasSuffix s t"
  then have "s = take (length s - length t) s @ t"
    by (metis append_take_drop_id strings_HasSuffix_def)
  then show "\<exists>pre. s = pre @ t" ..
next
  assume "\<exists>pre. s = pre @ t"
  then show "strings_HasSuffix s t"
    by (auto simp: strings_HasSuffix_def)
qed

lemma shapesInZip_filter:
  "shapesInZip rd = filter (\<lambda>f. \<exists>pre. Name f = pre @ ''.shp'') (File rd)"
  by (simp add: shapesInZip_def HasSuffix_iff)

lemma zip_OpenReader_ok:
  "OpenReader_at w p = Inr a \<Longrightarrow>
   zip_OpenReader p w =
     (Inr (length (handles w)),
      w\<lparr>handles := handles w @ [\<lparr>Reader = a_Reader a, h_Close = a_Close a, closes = 0\<rparr>]\<rparr>)"
  by (simp add: zip_OpenReader_def)

lemma zip_OpenReader_err:
  "OpenReader_at w p = Inl e \<Longrightarrow> zip_OpenReader p w = (Inl e, w)"
  by (simp add: zip_OpenReader_def)

lemma load_none:
  "length (shapesInZip (z zr)) = 0 \<Longrightarrow>
   loadSHPAndMaybeDBF I zr w = (Some ''archive does not contain a .shp file'', zr, w)"
  by (simp add: loadSHPAndMaybeDBF_def)

lemma load_many:
  "1 < length (shapesInZip (z zr)) \<Longrightarrow>
   loadSHPAndMaybeDBF I zr w = (Some ''archive does contain multiple .shp files'', zr, w)"
  by (cases "shapesInZip (z zr)") (auto simp: loadSHPAndMaybeDBF_def Let_def)

lemma load_ok_one:
  "fst (loadSHPAndMaybeDBF I zr w) = None \<Longrightarrow> length (shapesInZip (z zr)) = 1"
proof -
  assume ok: "fst (loadSHPAndMaybeDBF I zr w) = None"
  have "length (shapesInZip (z zr)) = 0 \<or> 1 < length (shapesInZip (z zr))
          \<or> length (shapesInZip (z zr)) = 1"
    by arith
  then show ?thesis
    using ok load_none [of zr I w] load_many [of zr I w] by auto
qed

subsection \<open>Auto-discovery\<close>

lemma OpenZip_none:
  assumes "OpenReader_at w p = Inr a" and "length (shapesInZip (a_Reader a)) = 0"
  shows "fst (OpenZip I p w) = Inl ''archive does not contain a .shp file''"
  using assms by (simp add: OpenZip_def zip_OpenReader_ok load_none)

lemma OpenZip_many:
  assumes "OpenReader_at w p = Inr a" and "1 < length (shapesInZip (a_Reader a))"
  shows "fst (OpenZip I p w) = Inl ''archive does contain multiple .shp files''"
  using assms by (simp add: OpenZip_def zip_OpenReader_ok load_many)

lemma OpenZip_ok_one:
  assumes "OpenReader_at w p = Inr a" and "fst (OpenZip I p w) = Inr zr"
  shows "length (shapesInZip (a_Reader a)) = 1"
proof -
  let ?w1 = "w\<lparr>handles := handles w @ [\<lparr>Reader = a_Reader a, h_Close = a_Close a, closes = 0\<rparr>]\<rparr>"
  let ?zr = "\<lparr>sr = None, z = a_Reader a, file = Some (length (handles w))\<rparr> :: ('a, 'b) ZipReader"
  have "fst (loadSHPAndMaybeDBF I ?zr ?w1) = None"
    using assms by (simp add: OpenZip_def zip_OpenReader_ok split: prod.splits option.splits)
  from load_ok_one [OF this] show ?thesis by simp
qed

lemma OpenZipReader_none:
  assumes "NewReader_of w bs = Inr rd" and "length (shapesInZip rd) = 0"
  shows "fst (OpenZipReader I (Inr bs) w) = Inl ''archive does not contain a .shp file''"
  using assms by (simp add: OpenZipReader_def zip_NewReader_def load_none)

lemma OpenZipReader_many:
  assumes "NewReader_of w bs = Inr rd" and "1 < length (shapesInZip rd)"
  shows "fst (OpenZipReader I (Inr bs) w) = Inl ''archive does contain multiple .shp files''"
  using assms by (simp add: OpenZipReader_def zip_NewReader_def load_many)

lemma OpenZipReader_ok_one:
  assumes "NewReader_of w bs = Inr rd" and "fst (OpenZipReader I (Inr bs) w) = Inr zr"
  shows "length (shapesInZip rd) = 1"
proof -
  let ?zr = "\<lparr>sr = None, z = rd, file = None\<rparr> :: ('a, 'b) ZipReader"
  have "fst (loadSHPAndMaybeDBF I ?zr w) = None"
    using assms by (simp add: OpenZipReader_def zip_NewReader_def split: prod.splits option.splits)
  from load_ok_one [OF this] show ?thesis by simp
qed

lemma OpenZip_parcels:
  "OpenZip (demo_reader c) ''parcels.zip'' (demo_world cl) = (Inr (demo_facade c), demo_opened cl)"
  "OpenZip (demo_reader c) ''new%20parcels.zip'' (demo_world cl)
     = (Inr (demo_facade c), demo_opened cl)"
  by (simp_all add: OpenZip_def zip_OpenReader_def loadSHPAndMaybeDBF_def shapesInZip_def
      openFromZIP_def File_Open_def strings_HasSuffix_def strings_TrimSuffix_def
      demo_world_def demo_disk_def demo_reader_def demo_facade_def demo_opened_def entry_def)

text \<open>
  Claim C1. When the archive opens, \<^verbatim>\<open>OpenZip\<close> and \<^verbatim>\<open>OpenZipReader\<close> fail with
  the error "archive does not contain a .shp file" if no entry name ends with
  \<^verbatim>\<open>.shp\<close>, and with "archive does contain multiple .shp files" if more than one does;
  in both cases the result is the error and no facade. Whenever they return a facade,
  exactly one entry name ends with \<^verbatim>\<open>.shp\<close>.
\<close>

theorem auto_discovery_needs_exactly_one:
  assumes "OpenReader_at w p = Inr a" and "NewReader_of w bs = Inr rd"
  shows "(length (filter (\<lambda>f. \<exists>pre. Name f = pre @ ''.shp'') (File (a_Reader a))) = 0 \<longrightarrow>
            fst (OpenZip I p w) = Inl ''archive does not contain a .shp file'')
       \<and> (1 < length (filter (\<lambda>f. \<exists>pre. Name f = pre @ ''.shp'') (File (a_Reader a))) \<longrightarrow>
            fst (OpenZip I p w) = Inl ''archive does contain multiple .shp files'')
       \<and> (\<forall>zr. fst (OpenZip I p w) = Inr zr \<longrightarrow>
            length (filter (\<lambda>f. \<exists>pre. Name f = pre @ ''.shp'') (File (a_Reader a))) = 1)
       \<and> (length (filter (\<lambda>f. \<exists>pre. Name f = pre @ ''.shp'') (File rd)) = 0 \<longrightarrow>
            fst (OpenZipReader I (Inr bs) w) = Inl ''archive does not contain a .shp file'')
       \<and> (1 < length (filter (\<lambda>f. \<exists>pre. Name f = pre @ ''.shp'') (File rd)) \<longrightarrow>
            fst (OpenZipReader I (Inr bs) w) = Inl ''archive does contain multiple .shp files'')
       \<and> (\<forall>zr. fst (OpenZipReader I (Inr bs) w) = Inr zr \<longrightarrow>
            length (filter (\<lambda>f. \<exists>pre. Name f = pre @ ''.shp'') (File rd)) = 1)"
  using OpenZip_none [OF assms(1)] OpenZip_many [OF assms(1)] OpenZip_ok_one [OF assms(1)]
    OpenZipReader_none [OF assms(2)] OpenZipReader_many [OF assms(2)]
    OpenZipReader_ok_one [OF assms(2)]
  unfolding shapesInZip_filter by blast

theorem auto_discovery_needs_exactly_one_witness:
  "fst (OpenZip (demo_reader (\<lambda>k. None)) ''upper.zip'' (demo_world (\<lambda>k. None)))
     = Inl ''archive does not contain a .shp file''
   \<and> fst (OpenZipReader (demo_reader (\<lambda>k. None)) (Inr ''two.zip'') (demo_world (\<lambda>k. None)))
     = Inl ''archive does contain multiple .shp files''
   \<and> fst (OpenZip (demo_reader (\<lambda>k. None)) ''parcels.zip'' (demo_world (\<lambda>k. None)))
     = Inr (demo_facade (\<lambda>k. None))
   \<and> length (filter (\<lambda>f. \<exists>pre. Name f = pre @ ''.shp'')
        [entry ''parcels.shp'', entry ''parcels.dbf'']) = 1"
proof -
  have fails:
    "fst (OpenZip (demo_reader (\<lambda>k. None)) ''upper.zip'' (demo_world (\<lambda>k. None)))
       = Inl ''archive does not contain a .shp file''
     \<and> fst (OpenZipReader (demo_reader (\<lambda>k. None)) (Inr ''two.zip'') (demo_world (\<lambda>k. None)))
       = Inl ''archive does contain multiple .shp files''"
    using auto_discovery_needs_exactly_one
      [of "demo_world (\<lambda>k. None)" "''upper.zip''" _ "''two.zip''" _ "demo_reader (\<lambda>k. None)"]
    by (simp add: demo_world_def demo_disk_def entry_def HasSuffix_iff [symmetric]
        strings_HasSuffix_def)
  have opens:
    "fst (OpenZip (demo_reader (\<lambda>k. None)) ''parcels.zip'' (demo_world (\<lambda>k. None)))
       = Inr (demo_facade (\<lambda>k. None))"
    by (simp add: OpenZip_parcels)
  have disk: "OpenReader_at (demo_world (\<lambda>k. None)) ''parcels.zip''
      = Inr \<lparr>a_Reader = \<lparr>File = [entry ''parcels.shp'', entry ''parcels.dbf'']\<rparr>,
               a_Close = (\<lambda>k. None)\<rparr>"
    by (simp add: demo_world_def demo_disk_def)
  have bytes: "NewReader_of (demo_world (\<lambda>k. None)) ''parcels.zip''
      = Inr \<lparr>File = [entry ''parcels.shp'', entry ''parcels.dbf'']\<rparr>"
    by (simp add: demo_world_def demo_disk_def)
  have one: "length (filter (\<lambda>f. \<exists>pre. Name f = pre @ ''.shp'')
        [entry ''parcels.shp'', entry ''parcels.dbf'']) = 1"
    using auto_discovery_needs_exactly_one [OF disk bytes, of "demo_reader (\<lambda>k. None)"] opens
    by simp
  from fails opens one show ?thesis by blast
qed

subsection \<open>Opening the pair\<close>

lemma openFromZIP_find:
  "openFromZIP rd name w =
     (case find (\<lambda>f. Name f = name) (File rd) of
        None \<Rightarrow> (Inl (''No such file in archive: '' @ name), w)
      | Some f \<Rightarrow> (Open f, w\<lparr>opened := opened w @ [Name f]\<rparr>))"
proof -
  have "openFromZIP_loop fs name w =
     (case find (\<lambda>f. Name f = name) fs of
        None \<Rightarrow> (Inl (''No such file in archive: '' @ name), w)
      | Some f \<Rightarrow> (Open f, w\<lparr>opened := opened w @ [Name f]\<rparr>))" for fs
    by (induction fs) (simp_all add: File_Open_def)
  then show ?thesis by (simp add: openFromZIP_def)
qed

lemma openFromZIP_fst_world: "fst (openFromZIP rd name w) = fst (openFromZIP rd name w')"
  by (simp add: openFromZIP_find split: option.splits)

lemma Ext_loop_append:
  "Ext_loop (xs @ ys) (length xs) =
     (if CHR ''.'' \<in> set (takeWhile (\<lambda>c. c \<noteq> CHR ''/'') (rev xs))
      then CHR ''.'' # rev (takeWhile (\<lambda>c. c \<noteq> CHR ''.'') (rev xs)) @ ys
      else [])"
proof (induction xs arbitrary: ys rule: rev_induct)
  case Nil
  show ?case by simp
next
  case (snoc c xs)
  have nth: "(xs @ c # ys) ! length xs = c" by simp
  have step: "Ext_loop ((xs @ [c]) @ ys) (length (xs @ [c])) =
     (if c = CHR ''/'' then []
      else if c = CHR ''.'' then c # ys
      else Ext_loop (xs @ c # ys) (length xs))"
    using nth by simp
  show ?case
    unfolding step using snoc.IH [of "c # ys"] by simp
qed

lemma path_Ext_char:
  "path_Ext name =
     (if CHR ''.'' \<in> set (takeWhile (\<lambda>c. c \<noteq> CHR ''/'') (rev name))
      then CHR ''.'' # rev (takeWhile (\<lambda>c. c \<noteq> CHR ''.'') (rev name))
      else [])"
  using Ext_loop_append [of name "[]"] by (simp add: path_Ext_def)

lemma TrimSuffix_append: "strings_TrimSuffix (pre @ suf) suf = pre"
  by (simp add: strings_TrimSuffix_def strings_HasSuffix_def)

lemma TrimSuffix_Nil: "strings_TrimSuffix s [] = s"
  by (simp add: strings_TrimSuffix_def strings_HasSuffix_def)

lemma split_at_last_dot:
  assumes "CHR ''.'' \<in> set name"
  shows "name = rev (tl (dropWhile (\<lambda>c. c \<noteq> CHR ''.'') (rev name)))
                  @ CHR ''.'' # rev (takeWhile (\<lambda>c. c \<noteq> CHR ''.'') (rev name))"
proof -
  let ?P = "\<lambda>c. c \<noteq> CHR ''.''"
  from assms have "dropWhile ?P (rev name) \<noteq> []" by (simp add: dropWhile_eq_Nil_conv)
  moreover have "hd (dropWhile ?P (rev name)) = CHR ''.''"
    using calculation hd_dropWhile [of ?P "rev name"] by blast
  ultimately have d: "dropWhile ?P (rev name) = CHR ''.'' # tl (dropWhile ?P (rev name))"
    by (metis list.collapse)
  have "rev name = takeWhile ?P (rev name) @ dropWhile ?P (rev name)" by simp
  then have "rev name = takeWhile ?P (rev name) @ CHR ''.'' # tl (dropWhile ?P (rev name))"
    using d by simp
  then have "rev (rev name) = rev (takeWhile ?P (rev name) @ CHR ''.'' # tl (dropWhile ?P (rev name)))"
    by simp
  then show ?thesis by simp
qed

lemma TrimSuffix_Ext: "strings_TrimSuffix name (path_Ext name) @ ext = replace_ext name ext"
proof (cases "CHR ''.'' \<in> set (takeWhile (\<lambda>c. c \<noteq> CHR ''/'') (rev name))")
  case False
  then show ?thesis by (simp add: path_Ext_char replace_ext_def TrimSuffix_Nil)
next
  case True
  then have "CHR ''.'' \<in> set (rev name)" by (meson set_takeWhileD)
  then have dot: "CHR ''.'' \<in> set name" by simp
  let ?pre = "rev (tl (dropWhile (\<lambda>c. c \<noteq> CHR ''.'') (rev name)))"
  let ?suf = "CHR ''.'' # rev (takeWhile (\<lambda>c. c \<noteq> CHR ''.'') (rev name))"
  have "strings_TrimSuffix name ?suf = strings_TrimSuffix (?pre @ ?suf) ?suf"
    using split_at_last_dot [OF dot] by simp
  also have "\<dots> = ?pre" by (rule TrimSuffix_append)
  finally show ?thesis using True by (simp add: path_Ext_char replace_ext_def)
qed

lemma replace_ext_shp: "replace_ext (pre @ ''.shp'') ext = pre @ ext"
  by (simp add: replace_ext_def)

lemma TrimSuffix_shp:
  assumes "strings_HasSuffix name ''.shp''"
  shows "strings_TrimSuffix name ''.shp'' @ ext = replace_ext name ext"
proof -
  from assms obtain pre where "name = pre @ ''.shp''" unfolding HasSuffix_iff ..
  then show ?thesis by (simp add: TrimSuffix_append replace_ext_shp)
qed

lemma load_one:
  assumes "shapesInZip (z zr) = [f]"
  shows "loadSHPAndMaybeDBF I zr w =
     (case openFromZIP (z zr) (Name f) w of
        (Inl err, w1) \<Rightarrow> (Some err, zr, w1)
      | (Inr shp, w1) \<Rightarrow>
          (case openFromZIP (z zr) (strings_TrimSuffix (Name f) ''.shp'' @ ''.dbf'') w1 of
             (dbf, w2) \<Rightarrow>
               (None,
                zr\<lparr>sr := Some (SequentialReaderFromExt I shp
                                (case dbf of Inl _ \<Rightarrow> None | Inr d \<Rightarrow> Some d))\<rparr>,
                w2)))"
  using assms by (simp add: loadSHPAndMaybeDBF_def Let_def split: prod.splits sum.splits)

lemma shapesInZip_suffix:
  assumes "shapesInZip rd = [f]"
  shows "strings_HasSuffix (Name f) ''.shp''"
proof -
  have "f \<in> set (shapesInZip rd)" using assms by simp
  then show ?thesis by (simp add: shapesInZip_def)
qed

lemma openFromZIP_stream:
  "(case fst (openFromZIP rd name w) of Inl _ \<Rightarrow> None | Inr d \<Rightarrow> Some d) =
     (case find (\<lambda>g. Name g = name) (File rd) of
        None \<Rightarrow> None
      | Some g \<Rightarrow> (case Open g of Inl _ \<Rightarrow> None | Inr d \<Rightarrow> Some d))"
  by (simp add: openFromZIP_find split: option.splits)

lemma load_one_err:
  assumes "shapesInZip (z zr) = [f]" and "fst (openFromZIP (z zr) (Name f) w) = Inl e"
  shows "fst (loadSHPAndMaybeDBF I zr w) = Some e"
  using assms(2) unfolding load_one [OF assms(1)]
  by (cases "openFromZIP (z zr) (Name f) w") simp

lemma load_one_ok:
  assumes "shapesInZip (z zr) = [f]" and "fst (openFromZIP (z zr) (Name f) w) = Inr shp"
  shows "fst (loadSHPAndMaybeDBF I zr w) = None"
    and "sr (fst (snd (loadSHPAndMaybeDBF I zr w))) =
      Some (SequentialReaderFromExt I shp
        (case find (\<lambda>g. Name g = strings_TrimSuffix (Name f) ''.shp'' @ ''.dbf'') (File (z zr)) of
           None \<Rightarrow> None
         | Some g \<Rightarrow> (case Open g of Inl _ \<Rightarrow> None | Inr d \<Rightarrow> Some d)))"
proof -
  obtain w1 where p: "openFromZIP (z zr) (Name f) w = (Inr shp, w1)"
    using assms(2) by (cases "openFromZIP (z zr) (Name f) w") simp
  let ?c = "strings_TrimSuffix (Name f) ''.shp'' @ ''.dbf''"
  obtain dbf w2 where c: "openFromZIP (z zr) ?c w1 = (dbf, w2)"
    by (cases "openFromZIP (z zr) ?c w1") simp
  have l: "loadSHPAndMaybeDBF I zr w =
     (None, zr\<lparr>sr := Some (SequentialReaderFromExt I shp
                          (case dbf of Inl _ \<Rightarrow> None | Inr d \<Rightarrow> Some d))\<rparr>, w2)"
    unfolding load_one [OF assms(1)] by (simp add: p c)
  show "fst (loadSHPAndMaybeDBF I zr w) = None" by (simp add: l)
  have "dbf = fst (openFromZIP (z zr) ?c w1)" by (simp add: c)
  then show "sr (fst (snd (loadSHPAndMaybeDBF I zr w))) =
      Some (SequentialReaderFromExt I shp
        (case find (\<lambda>g. Name g = ?c) (File (z zr)) of
           None \<Rightarrow> None
         | Some g \<Rightarrow> (case Open g of Inl _ \<Rightarrow> None | Inr d \<Rightarrow> Some d)))"
    using openFromZIP_stream [of "z zr" ?c w1] by (simp add: l)
qed

lemma OpenShapeFromZip_unfold:
  assumes "OpenReader_at w p = Inr a"
  shows "OpenShapeFromZip I p name w =
     (case openFromZIP (a_Reader a) name
             (w\<lparr>handles := handles w @ [\<lparr>Reader = a_Reader a, h_Close = a_Close a, closes = 0\<rparr>]\<rparr>) of
        (Inl err, w2) \<Rightarrow> (Inl err, w2)
      | (Inr shp, w2) \<Rightarrow>
          (case openFromZIP (a_Reader a) (strings_TrimSuffix name (path_Ext name) @ ''.dbf'') w2 of
             (dbf, w3) \<Rightarrow>
               (Inr \<lparr>sr = Some (SequentialReaderFromExt I shp
                                (case dbf of Inl _ \<Rightarrow> None | Inr d \<Rightarrow> Some d)),
                     z = a_Reader a, file = Some (length (handles w))\<rparr>,
                w3)))"
  using assms
  by (simp add: OpenShapeFromZip_def zip_OpenReader_ok Let_def split: prod.splits sum.splits)

lemma OpenShapeFromZip_err:
  assumes "OpenReader_at w p = Inr a" and "fst (openFromZIP (a_Reader a) name w) = Inl e"
  shows "fst (OpenShapeFromZip I p name w) = Inl e"
proof -
  let ?w1 = "w\<lparr>handles := handles w @ [\<lparr>Reader = a_Reader a, h_Close = a_Close a, closes = 0\<rparr>]\<rparr>"
  have "fst (openFromZIP (a_Reader a) name ?w1) = Inl e"
    using assms(2) openFromZIP_fst_world [of "a_Reader a" name ?w1 w] by simp
  then show ?thesis
    unfolding OpenShapeFromZip_unfold [OF assms(1)]
    by (cases "openFromZIP (a_Reader a) name ?w1") simp
qed

lemma OpenShapeFromZip_ok:
  assumes "OpenReader_at w p = Inr a" and "fst (openFromZIP (a_Reader a) name w) = Inr shp"
  shows "\<exists>zr'. fst (OpenShapeFromZip I p name w) = Inr zr' \<and>
      sr zr' = Some (SequentialReaderFromExt I shp
        (case find (\<lambda>g. Name g = strings_TrimSuffix name (path_Ext name) @ ''.dbf'')
                (File (a_Reader a)) of
           None \<Rightarrow> None
         | Some g \<Rightarrow> (case Open g of Inl _ \<Rightarrow> None | Inr d \<Rightarrow> Some d)))"
proof -
  let ?w1 = "w\<lparr>handles := handles w @ [\<lparr>Reader = a_Reader a, h_Close = a_Close a, closes = 0\<rparr>]\<rparr>"
  let ?c = "strings_TrimSuffix name (path_Ext name) @ ''.dbf''"
  have "fst (openFromZIP (a_Reader a) name ?w1) = Inr shp"
    using assms(2) openFromZIP_fst_world [of "a_Reader a" name ?w1 w] by simp
  then obtain w2 where p: "openFromZIP (a_Reader a) name ?w1 = (Inr shp, w2)"
    by (cases "openFromZIP (a_Reader a) name ?w1") simp
  obtain dbf w3 where c: "openFromZIP (a_Reader a) ?c w2 = (dbf, w3)"
    by (cases "openFromZIP (a_Reader a) ?c w2") simp
  have "dbf = fst (openFromZIP (a_Reader a) ?c w2)" by (simp add: c)
  then show ?thesis
    unfolding OpenShapeFromZip_unfold [OF assms(1)]
    using openFromZIP_stream [of "a_Reader a" ?c w2] by (simp add: p c)
qed

text \<open>
  Claim C3. Once the primary entry is resolved, construction fails only if the primary
  entry cannot be opened, and then with that error. If it opens, construction succeeds,
  and the reader is built on the primary stream and on the companion stream, which is
  absent both when no entry has the derived name and when that entry's
  \<^verbatim>\<open>Open()\<close> fails. This holds in auto-discovery (\<^verbatim>\<open>loadSHPAndMaybeDBF\<close>) and in
  \<^verbatim>\<open>OpenShapeFromZip\<close>.
\<close>

theorem companion_failure_is_absence:
  assumes "shapesInZip (z zr) = [f]" and "OpenReader_at w p = Inr a"
  shows "(\<forall>e. fst (openFromZIP (z zr) (Name f) w) = Inl e \<longrightarrow>
            fst (loadSHPAndMaybeDBF I zr w) = Some e)
       \<and> (\<forall>shp. fst (openFromZIP (z zr) (Name f) w) = Inr shp \<longrightarrow>
            fst (loadSHPAndMaybeDBF I zr w) = None \<and>
            sr (fst (snd (loadSHPAndMaybeDBF I zr w))) =
              Some (SequentialReaderFromExt I shp
                (case find (\<lambda>g. Name g = strings_TrimSuffix (Name f) ''.shp'' @ ''.dbf'')
                        (File (z zr)) of
                   None \<Rightarrow> None
                 | Some g \<Rightarrow> (case Open g of Inl _ \<Rightarrow> None | Inr d \<Rightarrow> Some d))))
       \<and> (\<forall>e. fst (openFromZIP (a_Reader a) name w) = Inl e \<longrightarrow>
            fst (OpenShapeFromZip I p name w) = Inl e)
       \<and> (\<forall>shp. fst (openFromZIP (a_Reader a) name w) = Inr shp \<longrightarrow>
            (\<exists>zr'. fst (OpenShapeFromZip I p name w) = Inr zr' \<and>
               sr zr' = Some (SequentialReaderFromExt I shp
                 (case find (\<lambda>g. Name g = strings_TrimSuffix name (path_Ext name) @ ''.dbf'')
                         (File (a_Reader a)) of
                    None \<Rightarrow> None
                  | Some g \<Rightarrow> (case Open g of Inl _ \<Rightarrow> None | Inr d \<Rightarrow> Some d)))))"
  using load_one_err [OF assms(1)] load_one_ok [OF assms(1)]
    OpenShapeFromZip_err [OF assms(2)] OpenShapeFromZip_ok [OF assms(2)]
  by blast

lemma demo_HasSuffix [simp]:
  "strings_HasSuffix ''roads.shp'' ''.shp''" "\<not> strings_HasSuffix ''roads.dbf'' ''.shp''"
  by (simp_all add: strings_HasSuffix_def)

theorem companion_failure_is_absence_witness:
  "(\<exists>zr'. fst (OpenShapeFromZip (demo_reader (\<lambda>k. None)) ''broken.zip'' ''roads.shp''
               (demo_world (\<lambda>k. None))) = Inr zr'
      \<and> sr zr' = Some \<lparr>st_shp = ''bytes of roads.shp'', st_dbf = None, st_num = 0, st_closes = 0\<rparr>)
   \<and> fst (loadSHPAndMaybeDBF (demo_reader (\<lambda>k. None))
            \<lparr>sr = None,
              z = \<lparr>File = [entry ''roads.shp'',
                    \<lparr>Name = ''roads.dbf'', Open = Inl ''zip: unsupported compression algorithm''\<rparr>]\<rparr>,
              file = None\<rparr>
            (demo_world (\<lambda>k. None))) = None"
  using companion_failure_is_absence
    [of "\<lparr>sr = None,
          z = \<lparr>File = [entry ''roads.shp'',
                \<lparr>Name = ''roads.dbf'', Open = Inl ''zip: unsupported compression algorithm''\<rparr>]\<rparr>,
          file = None\<rparr>"
        "entry ''roads.shp''" "demo_world (\<lambda>k. None)" "''broken.zip''" _
        "demo_reader (\<lambda>k. None)" "''roads.shp''"]
  by (simp add: demo_world_def demo_disk_def demo_reader_def entry_def shapesInZip_def
      openFromZIP_def File_Open_def strings_TrimSuffix_def path_Ext_def)

subsection \<open>The companion's name\<close>

lemma replace_ext_no_dot:
  assumes "CHR ''.'' \<notin> set (takeWhile (\<lambda>c. c \<noteq> CHR ''/'') (rev name))"
  shows "replace_ext name ext = name @ ext"
  using assms by (simp add: replace_ext_def)

lemma replace_ext_dot:
  assumes "CHR ''.'' \<notin> set e" and "CHR ''/'' \<notin> set e"
  shows "replace_ext (pre @ CHR ''.'' # e) ext = pre @ ext"
proof -
  have t1: "takeWhile (\<lambda>c. c \<noteq> CHR ''/'') (rev e @ CHR ''.'' # rev pre)
              = rev e @ takeWhile (\<lambda>c. c \<noteq> CHR ''/'') (CHR ''.'' # rev pre)"
    using assms(2) by (intro takeWhile_append2) auto
  have t2: "dropWhile (\<lambda>c. c \<noteq> CHR ''.'') (rev e @ CHR ''.'' # rev pre) = CHR ''.'' # rev pre"
    using assms(1) by (auto simp: dropWhile_append3)
  show ?thesis
    by (simp add: replace_ext_def t1 t2)
qed

lemma load_as_open_pair:
  assumes "shapesInZip (z zr) = [f]"
  shows "loadSHPAndMaybeDBF I zr w =
     (case open_pair I (z zr) (Name f) w of
        (Inl e, w') \<Rightarrow> (Some e, zr, w')
      | (Inr r, w') \<Rightarrow> (None, zr\<lparr>sr := Some r\<rparr>, w'))"
  unfolding load_one [OF assms] open_pair_def
    TrimSuffix_shp [OF shapesInZip_suffix [OF assms]]
  by (simp split: prod.splits sum.splits)

lemma OpenShapeFromZip_as_open_pair:
  assumes "OpenReader_at w p = Inr a"
  shows "OpenShapeFromZip I p name w =
     (case open_pair I (a_Reader a) name
             (w\<lparr>handles := handles w @ [\<lparr>Reader = a_Reader a, h_Close = a_Close a, closes = 0\<rparr>]\<rparr>) of
        (Inl e, w') \<Rightarrow> (Inl e, w')
      | (Inr r, w') \<Rightarrow>
          (Inr \<lparr>sr = Some r, z = a_Reader a, file = Some (length (handles w))\<rparr>, w'))"
  unfolding OpenShapeFromZip_unfold [OF assms] open_pair_def TrimSuffix_Ext
  by (simp split: prod.splits sum.splits)

text \<open>
  Claim C7. Both constructors are the specification's pair opener on the resolved
  primary name: the name under which the companion is looked up is the primary name
  with its extension replaced by \<^verbatim>\<open>.dbf\<close>. In auto-discovery that is the name
  without its trailing \<^verbatim>\<open>.shp\<close> followed by \<^verbatim>\<open>.dbf\<close>; in open-by-name it is
  the name without \<^verbatim>\<open>path.Ext(name)\<close> followed by \<^verbatim>\<open>.dbf\<close>, and nothing is
  stripped if the last path element has no dot.
\<close>

theorem companion_name_replaces_extension:
  assumes "shapesInZip (z zr) = [f]" and "OpenReader_at w p = Inr a"
  shows "loadSHPAndMaybeDBF I zr w =
           (case open_pair I (z zr) (Name f) w of
              (Inl e, w') \<Rightarrow> (Some e, zr, w')
            | (Inr r, w') \<Rightarrow> (None, zr\<lparr>sr := Some r\<rparr>, w'))
       \<and> OpenShapeFromZip I p name w =
           (case open_pair I (a_Reader a) name
                   (w\<lparr>handles := handles w @
                        [\<lparr>Reader = a_Reader a, h_Close = a_Close a, closes = 0\<rparr>]\<rparr>) of
              (Inl e, w') \<Rightarrow> (Inl e, w')
            | (Inr r, w') \<Rightarrow>
                (Inr \<lparr>sr = Some r, z = a_Reader a, file = Some (length (handles w))\<rparr>, w'))
       \<and> strings_TrimSuffix (Name f) ''.shp'' @ ''.dbf'' = replace_ext (Name f) ''.dbf''
       \<and> strings_TrimSuffix name (path_Ext name) @ ''.dbf'' = replace_ext name ''.dbf''
       \<and> (\<forall>pre e. CHR ''.'' \<notin> set e \<and> CHR ''/'' \<notin> set e \<longrightarrow>
             replace_ext (pre @ CHR ''.'' # e) ''.dbf'' = pre @ ''.dbf'')
       \<and> (CHR ''.'' \<notin> set (takeWhile (\<lambda>c. c \<noteq> CHR ''/'') (rev name)) \<longrightarrow>
             replace_ext name ''.dbf'' = name @ ''.dbf'')"
  using load_as_open_pair [OF assms(1)] OpenShapeFromZip_as_open_pair [OF assms(2)]
    TrimSuffix_shp [OF shapesInZip_suffix [OF assms(1)]] TrimSuffix_Ext
    replace_ext_dot replace_ext_no_dot
  by blast

theorem companion_name_replaces_extension_witness:
  "strings_TrimSuffix ''parcels.shp'' ''.shp'' @ ''.dbf'' = ''parcels.dbf''
   \<and> strings_TrimSuffix ''maps.v2/roads'' (path_Ext ''maps.v2/roads'') @ ''.dbf''
       = ''maps.v2/roads.dbf''
   \<and> replace_ext ''parcels.shp'' ''.dbf'' = ''parcels.dbf''
   \<and> replace_ext ''maps.v2/roads'' ''.dbf'' = ''maps.v2/roads.dbf''"
  using companion_name_replaces_extension
    [of "\<lparr>sr = None, z = \<lparr>File = [entry ''parcels.shp'', entry ''parcels.dbf'']\<rparr>, file = None\<rparr>"
        "entry ''parcels.shp''" "demo_world (\<lambda>k. None)" "''parcels.zip''" _
        "demo_reader (\<lambda>k. None)" "''maps.v2/roads''"]
  by (simp add: demo_world_def demo_disk_def entry_def shapesInZip_def strings_HasSuffix_def
      replace_ext_def)

subsection \<open>Open by name\<close>

lemma find_None_names: "find (\<lambda>g. Name g = name) fs = None \<longleftrightarrow> name \<notin> Name ` set fs"
  by (auto simp: find_None_iff)

lemma OpenShapeFromZip_missing:
  assumes "OpenReader_at w p = Inr a" and "name \<notin> Name ` set (File (a_Reader a))"
  shows "fst (OpenShapeFromZip I p name w) = Inl (''No such file in archive: '' @ name)"
proof -
  have "find (\<lambda>g. Name g = name) (File (a_Reader a)) = None"
    using assms(2) by (simp add: find_None_names)
  then have "fst (openFromZIP (a_Reader a) name w) = Inl (''No such file in archive: '' @ name)"
    by (simp add: openFromZIP_find)
  then show ?thesis by (rule OpenShapeFromZip_err [OF assms(1)])
qed

lemma OpenShapeFromZip_present:
  assumes "OpenReader_at w p = Inr a" and "name \<in> Name ` set (File (a_Reader a))"
    and "\<And>f. find (\<lambda>g. Name g = name) (File (a_Reader a)) = Some f \<Longrightarrow> \<exists>s. Open f = Inr s"
  shows "\<exists>zr'. fst (OpenShapeFromZip I p name w) = Inr zr'"
proof -
  from assms(2) obtain f where f: "find (\<lambda>g. Name g = name) (File (a_Reader a)) = Some f"
    using find_None_names [of name "File (a_Reader a)"] by fastforce
  from assms(3) [OF f] obtain s where "Open f = Inr s" ..
  then have "fst (openFromZIP (a_Reader a) name w) = Inr s"
    by (simp add: openFromZIP_find f)
  from OpenShapeFromZip_ok [OF assms(1) this] show ?thesis by blast
qed

text \<open>
  Claim C8. When the archive opens and the entry found under the requested name, if
  any, opens, \<^verbatim>\<open>OpenShapeFromZip\<close> fails with "No such file in archive: name" if
  and only if no entry has exactly that name; if an entry has that name, a facade is
  returned, whatever the name's extension.
\<close>

theorem open_by_name_fails_iff_no_such_entry:
  assumes "OpenReader_at w p = Inr a"
    and "\<forall>f. find (\<lambda>g. Name g = name) (File (a_Reader a)) = Some f \<longrightarrow> (\<exists>s. Open f = Inr s)"
  shows "(fst (OpenShapeFromZip I p name w) = Inl (''No such file in archive: '' @ name)
            \<longleftrightarrow> name \<notin> Name ` set (File (a_Reader a)))
       \<and> (name \<in> Name ` set (File (a_Reader a)) \<longrightarrow>
            (\<exists>zr'. fst (OpenShapeFromZip I p name w) = Inr zr'))"
proof -
  have present: "name \<in> Name ` set (File (a_Reader a)) \<Longrightarrow>
      \<exists>zr'. fst (OpenShapeFromZip I p name w) = Inr zr'"
    using OpenShapeFromZip_present [OF assms(1)] assms(2) by blast
  have missing: "name \<notin> Name ` set (File (a_Reader a)) \<Longrightarrow>
      fst (OpenShapeFromZip I p name w) = Inl (''No such file in archive: '' @ name)"
    by (rule OpenShapeFromZip_missing [OF assms(1)])
  show ?thesis using present missing by fastforce
qed

theorem open_by_name_fails_iff_no_such_entry_witness:
  "fst (OpenShapeFromZip (demo_reader (\<lambda>k. None)) ''upper.zip'' ''data.shp'' (demo_world (\<lambda>k. None)))
     = Inl ''No such file in archive: data.shp''
   \<and> (\<exists>zr'. fst (OpenShapeFromZip (demo_reader (\<lambda>k. None)) ''upper.zip'' ''DATA.DBF''
                 (demo_world (\<lambda>k. None))) = Inr zr')"
  using open_by_name_fails_iff_no_such_entry
      [of "demo_world (\<lambda>k. None)" "''upper.zip''" _ "''data.shp''" "demo_reader (\<lambda>k. None)"]
    open_by_name_fails_iff_no_such_entry
      [of "demo_world (\<lambda>k. None)" "''upper.zip''" _ "''DATA.DBF''" "demo_reader (\<lambda>k. None)"]
  by (simp add: demo_world_def demo_disk_def entry_def)

subsection \<open>Listing\<close>

lemma ShapesInZip_ok:
  assumes "OpenReader_at w p = Inr a"
  shows "ShapesInZip p w =
     (Inr (map Name (shapesInZip (a_Reader a))),
      w\<lparr>handles := handles w @ [\<lparr>Reader = a_Reader a, h_Close = a_Close a, closes = 0\<rparr>]\<rparr>)"
  using assms by (simp add: ShapesInZip_def zip_OpenReader_ok)

lemma ShapesInZip_err:
  assumes "fst (ShapesInZip p w) = Inl e"
  shows "OpenReader_at w p = Inl e"
  using assms by (cases "OpenReader_at w p") (simp_all add: ShapesInZip_def zip_OpenReader_def)

lemma names_of_shapes:
  "map Name (shapesInZip rd) = filter (\<lambda>n. \<exists>pre. n = pre @ ''.shp'') (map Name (File rd))"
  by (simp add: shapesInZip_filter filter_map comp_def)

text \<open>
  Claim C6. When the archive at the path opens, \<^verbatim>\<open>ShapesInZip\<close> returns the names
  that end with \<^verbatim>\<open>.shp\<close>, in the order of the archive's directory; it calls
  \<^verbatim>\<open>Open()\<close> on no entry, and the directory held by the handle is the archive's,
  unchanged, as is what the disk holds. It fails only with the error of opening the
  archive.
\<close>

theorem ShapesInZip_lists_geometry_entries:
  "(\<forall>a. OpenReader_at w p = Inr a \<longrightarrow>
      fst (ShapesInZip p w) =
        Inr (filter (\<lambda>n. \<exists>pre. n = pre @ ''.shp'') (map Name (File (a_Reader a))))
      \<and> opened (snd (ShapesInZip p w)) = opened w
      \<and> OpenReader_at (snd (ShapesInZip p w)) = OpenReader_at w
      \<and> map Reader (handles (snd (ShapesInZip p w))) = map Reader (handles w) @ [a_Reader a])
   \<and> (\<forall>e. fst (ShapesInZip p w) = Inl e \<longrightarrow> OpenReader_at w p = Inl e)"
  using ShapesInZip_err [of p w] by (simp add: ShapesInZip_ok names_of_shapes)

theorem ShapesInZip_lists_geometry_entries_witness:
  "fst (ShapesInZip ''two.zip'' (demo_world (\<lambda>k. None))) = Inr [''a.shp'', ''b/c.shp'']
   \<and> opened (snd (ShapesInZip ''two.zip'' (demo_world (\<lambda>k. None)))) = []"
proof -
  have a: "strings_HasSuffix ''a.shp'' ''.shp''" "strings_HasSuffix ''b/c.shp'' ''.shp''"
    "\<not> strings_HasSuffix ''a.dbf'' ''.shp''"
    by (simp_all add: strings_HasSuffix_def)
  show ?thesis
    using ShapesInZip_lists_geometry_entries [of "demo_world (\<lambda>k. None)" "''two.zip''"] a
    by (simp add: demo_world_def demo_disk_def entry_def HasSuffix_iff)
qed

subsection \<open>Handles that are never closed\<close>

lemma openFromZIP_handles: "handles (snd (openFromZIP rd name w)) = handles w"
  by (simp add: openFromZIP_find split: option.splits)

lemma load_handles: "handles (snd (snd (loadSHPAndMaybeDBF I zr w))) = handles w"
proof -
  have a: "handles w1 = handles w" if "openFromZIP rd name w = (x, w1)" for rd name x w1
    using openFromZIP_handles [of rd name w] that by simp
  have b: "handles w2 = handles w"
    if "openFromZIP rd name w = (x, w1)" and "openFromZIP rd' name' w1 = (y, w2)"
    for rd name x w1 rd' name' y w2
    using openFromZIP_handles [of rd name w] openFromZIP_handles [of rd' name' w1] that by simp
  show ?thesis
    by (auto simp: loadSHPAndMaybeDBF_def Let_def a split: prod.splits sum.splits dest: b)
qed

lemma OpenZip_handle_stays_open:
  assumes "OpenReader_at w p = Inr a"
  shows "handles (snd (OpenZip I p w)) =
     handles w @ [\<lparr>Reader = a_Reader a, h_Close = a_Close a, closes = 0\<rparr>]"
proof -
  let ?w1 = "w\<lparr>handles := handles w @ [\<lparr>Reader = a_Reader a, h_Close = a_Close a, closes = 0\<rparr>]\<rparr>"
  let ?zr = "\<lparr>sr = None, z = a_Reader a, file = Some (length (handles w))\<rparr> :: ('a, 'b) ZipReader"
  have "snd (OpenZip I p w) = snd (snd (loadSHPAndMaybeDBF I ?zr ?w1))"
    using assms by (simp add: OpenZip_def zip_OpenReader_ok split: prod.splits option.splits)
  then show ?thesis by (simp add: load_handles)
qed

lemma OpenShapeFromZip_handle_stays_open:
  assumes "OpenReader_at w p = Inr a"
  shows "handles (snd (OpenShapeFromZip I p name w)) =
     handles w @ [\<lparr>Reader = a_Reader a, h_Close = a_Close a, closes = 0\<rparr>]"
proof -
  let ?w1 = "w\<lparr>handles := handles w @ [\<lparr>Reader = a_Reader a, h_Close = a_Close a, closes = 0\<rparr>]\<rparr>"
  have a: "handles w2 = handles ?w1" if "openFromZIP rd n ?w1 = (x, w2)" for rd n x w2
    using openFromZIP_handles [of rd n ?w1] that by simp
  have b: "handles w3 = handles ?w1"
    if "openFromZIP rd n ?w1 = (x, w2)" and "openFromZIP rd' n' w2 = (y, w3)"
    for rd n x w2 rd' n' y w3
    using openFromZIP_handles [of rd n ?w1] openFromZIP_handles [of rd' n' w2] that by simp
  show ?thesis
    unfolding OpenShapeFromZip_unfold [OF assms]
    by (auto split: prod.splits sum.splits dest: a b)
qed

lemma ShapesInZip_handle_stays_open:
  assumes "OpenReader_at w p = Inr a"
  shows "length (handles (snd (ShapesInZip p w))) = Suc (length (handles w))"
    and "closes (handles (snd (ShapesInZip p w)) ! length (handles w)) = 0"
  by (simp_all add: ShapesInZip_ok [OF assms])

text \<open>
  Claim C5 does not hold of the code. \<^verbatim>\<open>ShapesInZip\<close> on an archive that opens
  returns the names and leaves the handle with no \<^verbatim>\<open>Close\<close> call; the caller gets
  no reference to it. \<^verbatim>\<open>OpenZip\<close> on an archive without a \<^verbatim>\<open>.shp\<close> entry and
  \<^verbatim>\<open>OpenShapeFromZip\<close> on a name that is not in the archive return the error and
  leave the handle open as well. The lemmas above say so for every archive that
  opens; the theorem evaluates the three functions on the sample disk.
\<close>

theorem ShapesInZip_leaves_handle_open:
  "fst (ShapesInZip ''parcels.zip'' (demo_world (\<lambda>k. None))) = Inr [''parcels.shp'']
   \<and> map closes (handles (snd (ShapesInZip ''parcels.zip'' (demo_world (\<lambda>k. None))))) = [0]
   \<and> fst (OpenZip (demo_reader (\<lambda>k. None)) ''upper.zip'' (demo_world (\<lambda>k. None)))
       = Inl ''archive does not contain a .shp file''
   \<and> map closes (handles (snd (OpenZip (demo_reader (\<lambda>k. None)) ''upper.zip''
         (demo_world (\<lambda>k. None))))) = [0]
   \<and> fst (OpenShapeFromZip (demo_reader (\<lambda>k. None)) ''parcels.zip'' ''roads.shp''
         (demo_world (\<lambda>k. None)))
       = Inl ''No such file in archive: roads.shp''
   \<and> map closes (handles (snd (OpenShapeFromZip (demo_reader (\<lambda>k. None)) ''parcels.zip''
         ''roads.shp'' (demo_world (\<lambda>k. None))))) = [0]"
  by (simp add: ShapesInZip_def OpenZip_def OpenShapeFromZip_def zip_OpenReader_def
      loadSHPAndMaybeDBF_def shapesInZip_def openFromZIP_def strings_HasSuffix_def
      demo_world_def demo_disk_def entry_def)

subsection \<open>The facades that the constructors return\<close>

text \<open>
  A facade that a constructor returns has its reader set, so that no method panics on
  it; it owns a handle exactly if it was opened by path.
\<close>

lemma load_sets_reader:
  assumes "loadSHPAndMaybeDBF I zr w = (None, zr', w')"
  shows "sr zr' \<noteq> None" and "file zr' = file zr" and "z zr' = z zr"
  using assms
  by (auto simp: loadSHPAndMaybeDBF_def Let_def split: if_splits prod.splits sum.splits)

lemma OpenZip_facade:
  assumes "OpenZip I p w = (Inr zr, w')"
  shows "sr zr \<noteq> None" and "file zr = Some (length (handles w))"
    and "length (handles w) < length (handles w')"
proof -
  from assms obtain a where a: "OpenReader_at w p = Inr a"
    by (cases "OpenReader_at w p") (simp_all add: OpenZip_def zip_OpenReader_def)
  let ?w1 = "w\<lparr>handles := handles w @ [\<lparr>Reader = a_Reader a, h_Close = a_Close a, closes = 0\<rparr>]\<rparr>"
  let ?zr = "\<lparr>sr = None, z = a_Reader a, file = Some (length (handles w))\<rparr> :: ('a, 'b) ZipReader"
  from assms a have l: "loadSHPAndMaybeDBF I ?zr ?w1 = (None, zr, w')"
    by (simp add: OpenZip_def zip_OpenReader_ok split: prod.splits option.splits)
  from load_sets_reader [OF l] show "sr zr \<noteq> None" and "file zr = Some (length (handles w))"
    by simp_all
  from OpenZip_handle_stays_open [OF a, of I] assms
  show "length (handles w) < length (handles w')" by simp
qed

lemma OpenZipReader_facade:
  assumes "OpenZipReader I stream w = (Inr zr, w')"
  shows "sr zr \<noteq> None" and "file zr = None"
proof -
  from assms obtain bs rd where l:
    "loadSHPAndMaybeDBF I (\<lparr>sr = None, z = rd, file = None\<rparr> :: ('a, 'b) ZipReader) w = (None, zr, w')"
    by (auto simp: OpenZipReader_def split: sum.splits prod.splits option.splits)
  from load_sets_reader [OF l] show "sr zr \<noteq> None" and "file zr = None" by simp_all
qed

lemma OpenShapeFromZip_facade:
  assumes "OpenShapeFromZip I p name w = (Inr zr, w')"
  shows "sr zr \<noteq> None" and "file zr = Some (length (handles w))"
    and "length (handles w) < length (handles w')"
proof -
  from assms obtain a where a: "OpenReader_at w p = Inr a"
    by (cases "OpenReader_at w p") (simp_all add: OpenShapeFromZip_def zip_OpenReader_def)
  from assms show "sr zr \<noteq> None" and "file zr = Some (length (handles w))"
    unfolding OpenShapeFromZip_unfold [OF a]
    by (auto split: prod.splits sum.splits)
  from OpenShapeFromZip_handle_stays_open [OF a, of I name] assms
  show "length (handles w) < length (handles w')" by simp
qed

subsection \<open>Forwarding\<close>

lemma facade_call_forwards:
  assumes "sr zr = Some r"
  shows "facade_call I c zr =
     Returns (fst (reader_call I c r), zr\<lparr>sr := Some (snd (reader_call I c r))\<rparr>)"
  using assms
  by (cases c)
     (simp_all add: Next_def Shape_def Attribute_def Fields_def Err_def split: prod.splits)

lemma facade_run_forwards:
  assumes "sr zr = Some r"
  shows "facade_run I cs zr =
     Returns (fst (reader_run I cs r), zr\<lparr>sr := Some (snd (reader_run I cs r))\<rparr>)"
  using assms
proof (induction cs arbitrary: zr r)
  case Nil
  then show ?case by simp
next
  case (Cons c cs)
  let ?zr' = "zr\<lparr>sr := Some (snd (reader_call I c r))\<rparr>"
  have step: "facade_call I c zr = Returns (fst (reader_call I c r), ?zr')"
    by (rule facade_call_forwards [OF Cons.prems])
  have "sr ?zr' = Some (snd (reader_call I c r))" by simp
  from Cons.IH [OF this] show ?case
    by (simp add: step split: prod.splits)
qed

text \<open>
  Claim C9. On a facade whose reader is set, each of \<^verbatim>\<open>Next\<close>, \<^verbatim>\<open>Shape\<close>,
  \<^verbatim>\<open>Attribute\<close>, \<^verbatim>\<open>Fields\<close> and \<^verbatim>\<open>Err\<close> returns what the same call on the
  wrapped reader returns, and so does every sequence of such calls; the facade after
  the calls is the facade before them with the wrapped reader in its new state, the
  other fields unchanged.
\<close>

theorem facade_forwards_to_reader:
  assumes "sr zr = Some r"
  shows "facade_call I c zr =
           Returns (fst (reader_call I c r), zr\<lparr>sr := Some (snd (reader_call I c r))\<rparr>)
       \<and> facade_run I cs zr =
           Returns (fst (reader_run I cs r), zr\<lparr>sr := Some (snd (reader_run I cs r))\<rparr>)"
  using facade_call_forwards [OF assms] facade_run_forwards [OF assms] by blast

theorem facade_forwards_to_reader_witness:
  "facade_run (demo_reader (\<lambda>k. None))
     [CallNext, CallShape, CallAttribute 0, CallFields, CallErr, CallNext, CallNext, CallNext]
     (demo_facade (\<lambda>k. None))
   = Returns ([RNext True, RShape (0, ()), RAttribute ''v'', RFields [''NAME''], RErr None,
               RNext True, RNext True, RNext False],
              (demo_facade (\<lambda>k. None))
                \<lparr>sr := Some \<lparr>st_shp = ''bytes of parcels.shp'',
                              st_dbf = Some ''bytes of parcels.dbf'',
                              st_num = 3, st_closes = 0\<rparr>\<rparr>)"
proof -
  let ?r0 = "\<lparr>st_shp = ''bytes of parcels.shp'', st_dbf = Some ''bytes of parcels.dbf'',
              st_num = 0, st_closes = 0\<rparr>"
  let ?cs = "[CallNext, CallShape, CallAttribute 0, CallFields, CallErr, CallNext, CallNext,
              CallNext]"
  have s: "sr (demo_facade (\<lambda>k. None)) = Some ?r0"
    by (simp add: demo_facade_def)
  have r: "reader_run (demo_reader (\<lambda>k. None)) ?cs ?r0 =
      ([RNext True, RShape (0, ()), RAttribute ''v'', RFields [''NAME''], RErr None,
        RNext True, RNext True, RNext False],
       \<lparr>st_shp = ''bytes of parcels.shp'', st_dbf = Some ''bytes of parcels.dbf'',
          st_num = 3, st_closes = 0\<rparr>)"
    by (simp add: demo_reader_def)
  show ?thesis
    using facade_forwards_to_reader [OF s, of "demo_reader (\<lambda>k. None)" CallNext ?cs, THEN conjunct2]
    by (simp only: r fst_conv snd_conv)
qed

subsection \<open>Close\<close>

lemma doPrintf_plain: "CHR ''%'' \<notin> set s \<Longrightarrow> doPrintf s = s"
  by (induction s) auto

lemma line_of_Nil: "line_of e = [] \<longleftrightarrow> e = None"
  by (cases e) (simp_all add: line_of_def)

lemma Close_unfold:
  assumes "sr zr = Some r"
  shows "Close I zr w =
     Returns
       (if line_of (fst (sr_Close I r)) @
             (case file zr of None \<Rightarrow> [] | Some p \<Rightarrow> line_of (fst (ReadCloser_Close p w))) \<noteq> []
        then Some (fmt_Errorf
               (line_of (fst (sr_Close I r)) @
                 (case file zr of None \<Rightarrow> [] | Some p \<Rightarrow> line_of (fst (ReadCloser_Close p w)))))
        else None,
        zr\<lparr>sr := Some (snd (sr_Close I r))\<rparr>,
        case file zr of None \<Rightarrow> w | Some p \<Rightarrow> snd (ReadCloser_Close p w))"
  using assms
  by (simp add: Close_def line_of_def split: prod.splits option.splits)

lemma Close_Panic: "Close I zr w = Panic \<longleftrightarrow> sr zr = None"
proof (cases "sr zr")
  case None
  then show ?thesis by (simp add: Close_def)
next
  case (Some r)
  then show ?thesis by (simp add: Close_unfold)
qed

lemma Close_attempts_both:
  assumes "sr zr = Some r" and "file zr = Some p" and "p < length (handles w)"
  shows "\<exists>e zr' w'. Close I zr w = Returns (e, zr', w')
           \<and> sr zr' = Some (snd (sr_Close I r))
           \<and> closes (handles w' ! p) = Suc (closes (handles w ! p))"
  using assms by (simp add: Close_unfold ReadCloser_Close_def Let_def)

lemma Close_no_error:
  assumes "sr zr = Some r" and "fst (sr_Close I r) = None"
    and "\<And>p. file zr = Some p \<Longrightarrow> fst (ReadCloser_Close p w) = None"
  shows "result_of (Close I zr w) = Returns None"
  using assms by (simp add: Close_unfold result_of_def line_of_def split: option.splits)

lemma Close_both_fail_plain:
  assumes "sr zr = Some r" and "fst (sr_Close I r) = Some e1"
    and "file zr = Some p" and "fst (ReadCloser_Close p w) = Some e2"
    and "CHR ''%'' \<notin> set e1" and "CHR ''%'' \<notin> set e2"
  shows "result_of (Close I zr w) = Returns (Some (e1 @ ''. '' @ e2 @ ''. ''))"
proof -
  have "CHR ''%'' \<notin> set (e1 @ ''. '' @ e2 @ ''. '')"
    using assms(5,6) by simp
  then have "fmt_Errorf (e1 @ ''. '' @ e2 @ ''. '') = e1 @ ''. '' @ e2 @ ''. ''"
    unfolding fmt_Errorf_def by (rule doPrintf_plain)
  then show ?thesis
    using assms(1-4) by (simp add: Close_unfold result_of_def line_of_def)
qed

text \<open>
  Claim C2 does not hold of the code. \<^verbatim>\<open>Close\<close> calls both closes and collects both
  messages (lemmas \<open>Close_attempts_both\<close>, \<open>Close_no_error\<close> and
  \<open>Close_both_fail_plain\<close>), but it passes the collected text to \<^verbatim>\<open>fmt.Errorf\<close> as
  the format. On the facade that \<^verbatim>\<open>OpenZip\<close> returns for the archive
  \<^verbatim>\<open>new%20parcels.zip\<close>, with a reader whose \<^verbatim>\<open>Close\<close> fails with
  "zip: checksum error" and a handle whose \<^verbatim>\<open>Close\<close> fails with
  "close new%20parcels.zip: input/output error", the error returned does not contain
  the handle's message.
\<close>

theorem Close_mangles_percent_in_messages:
  "OpenZip (demo_reader (\<lambda>k. Some ''zip: checksum error'')) ''new%20parcels.zip''
       (demo_world (\<lambda>k. Some ''close new%20parcels.zip: input/output error''))
     = (Inr (demo_facade (\<lambda>k. Some ''zip: checksum error'')),
        demo_opened (\<lambda>k. Some ''close new%20parcels.zip: input/output error''))
   \<and> result_of (Close (demo_reader (\<lambda>k. Some ''zip: checksum error''))
         (demo_facade (\<lambda>k. Some ''zip: checksum error''))
         (demo_opened (\<lambda>k. Some ''close new%20parcels.zip: input/output error'')))
     = Returns (Some
         ''zip: checksum error. close new%!p(MISSING)arcels.zip: input/output error. '')
   \<and> \<not> sublist ''close new%20parcels.zip: input/output error''
         ''zip: checksum error. close new%!p(MISSING)arcels.zip: input/output error. ''"
proof -
  have f: "fmt_Errorf ''zip: checksum error. close new%20parcels.zip: input/output error. ''
      = ''zip: checksum error. close new%!p(MISSING)arcels.zip: input/output error. ''"
    by (simp add: fmt_Errorf_def verb_spec_def argNumber_def is_flag_def width_part_def
        prec_part_def verb_part_def DecodeRune_def is_digit_def doPrintf_plain)
  have c: "result_of (Close (demo_reader (\<lambda>k. Some ''zip: checksum error''))
         (demo_facade (\<lambda>k. Some ''zip: checksum error''))
         (demo_opened (\<lambda>k. Some ''close new%20parcels.zip: input/output error'')))
     = Returns (Some (fmt_Errorf
         ''zip: checksum error. close new%20parcels.zip: input/output error. ''))"
    by (simp add: Close_def ReadCloser_Close_def result_of_def demo_reader_def demo_facade_def
        demo_opened_def)
  have n: "\<not> sublist ''close new%20parcels.zip: input/output error''
         ''zip: checksum error. close new%!p(MISSING)arcels.zip: input/output error. ''"
    by code_simp
  show ?thesis using c n unfolding f by (simp add: OpenZip_parcels)
qed

subsection \<open>Close after Close\<close>

lemma second_Close:
  assumes "Close I zr w = Returns (e1, zr1, w1)"
  shows "\<exists>r1. sr zr1 = Some r1 \<and> file zr1 = file zr \<and>
     Close I zr1 w1 =
       Returns
         (if line_of (fst (sr_Close I r1)) @
               (case file zr of None \<Rightarrow> [] | Some p \<Rightarrow> line_of (fst (ReadCloser_Close p w1))) \<noteq> []
          then Some (fmt_Errorf
                 (line_of (fst (sr_Close I r1)) @
                   (case file zr of None \<Rightarrow> []
                    | Some p \<Rightarrow> line_of (fst (ReadCloser_Close p w1)))))
          else None,
          zr1\<lparr>sr := Some (snd (sr_Close I r1))\<rparr>,
          case file zr of None \<Rightarrow> w1 | Some p \<Rightarrow> snd (ReadCloser_Close p w1))"
proof -
  from assms have "sr zr \<noteq> None" using Close_Panic [of I zr w] by auto
  then obtain r where r: "sr zr = Some r" by auto
  from assms have zr1: "zr1 = zr\<lparr>sr := Some (snd (sr_Close I r))\<rparr>"
    unfolding Close_unfold [OF r] by simp
  then have s1: "sr zr1 = Some (snd (sr_Close I r))" and f1: "file zr1 = file zr" by simp_all
  show ?thesis
    using Close_unfold [OF s1, of I w1] s1 f1 by simp
qed

text \<open>
  Claim C4, amended. After a \<^verbatim>\<open>Close\<close> that returned, a second \<^verbatim>\<open>Close\<close> returns
  too (it does not panic). It calls \<^verbatim>\<open>Close\<close> on the wrapped reader again and, when
  the facade owns a handle, on the handle again, and it returns no error if and only
  if neither of these calls reports one.
\<close>

theorem second_Close_closes_again:
  assumes "Close I zr w = Returns (e1, zr1, w1)"
  shows "\<exists>r1 e2 zr2 w2.
           sr zr1 = Some r1
         \<and> Close I zr1 w1 = Returns (e2, zr2, w2)
         \<and> sr zr2 = Some (snd (sr_Close I r1))
         \<and> w2 = (case file zr of None \<Rightarrow> w1 | Some p \<Rightarrow> snd (ReadCloser_Close p w1))
         \<and> (e2 = None \<longleftrightarrow>
              fst (sr_Close I r1) = None \<and>
              (\<forall>p. file zr = Some p \<longrightarrow> fst (ReadCloser_Close p w1) = None))"
proof -
  from second_Close [OF assms] obtain r1 where
    s: "sr zr1 = Some r1" and
    c: "Close I zr1 w1 =
       Returns
         (if line_of (fst (sr_Close I r1)) @
               (case file zr of None \<Rightarrow> [] | Some p \<Rightarrow> line_of (fst (ReadCloser_Close p w1))) \<noteq> []
          then Some (fmt_Errorf
                 (line_of (fst (sr_Close I r1)) @
                   (case file zr of None \<Rightarrow> []
                    | Some p \<Rightarrow> line_of (fst (ReadCloser_Close p w1)))))
          else None,
          zr1\<lparr>sr := Some (snd (sr_Close I r1))\<rparr>,
          case file zr of None \<Rightarrow> w1 | Some p \<Rightarrow> snd (ReadCloser_Close p w1))"
    by blast
  have e: "(line_of (fst (sr_Close I r1)) @
               (case file zr of None \<Rightarrow> [] | Some p \<Rightarrow> line_of (fst (ReadCloser_Close p w1))) = [])
        \<longleftrightarrow> fst (sr_Close I r1) = None \<and>
              (\<forall>p. file zr = Some p \<longrightarrow> fst (ReadCloser_Close p w1) = None)"
    by (cases "file zr") (simp_all add: line_of_Nil)
  show ?thesis
    using s e unfolding c by (intro exI conjI) (rule s, rule refl, simp, rule refl, simp)
qed

theorem second_Close_closes_again_witness:
  "\<exists>r1 e2 zr2 w2.
      sr (demo_facade (\<lambda>k. None)\<lparr>sr := Some r1\<rparr>) = Some r1
    \<and> Close (demo_reader (\<lambda>k. None)) (demo_facade (\<lambda>k. None)\<lparr>sr := Some r1\<rparr>)
         ((demo_opened (go_file_Close ''parcels.zip''))
            \<lparr>handles := [\<lparr>Reader = \<lparr>File = [entry ''parcels.shp'', entry ''parcels.dbf'']\<rparr>,
                          h_Close = go_file_Close ''parcels.zip'', closes = 1\<rparr>]\<rparr>)
        = Returns (e2, zr2, w2)
    \<and> e2 \<noteq> None"
proof -
  let ?I = "demo_reader (\<lambda>k. None)"
  let ?zr = "demo_facade (\<lambda>k. None)"
  let ?w = "demo_opened (go_file_Close ''parcels.zip'')"
  let ?r1 = "\<lparr>st_shp = ''bytes of parcels.shp'', st_dbf = Some ''bytes of parcels.dbf'',
              st_num = 0, st_closes = 1\<rparr>"
  let ?w1 = "?w\<lparr>handles := [\<lparr>Reader = \<lparr>File = [entry ''parcels.shp'', entry ''parcels.dbf'']\<rparr>,
                          h_Close = go_file_Close ''parcels.zip'', closes = 1\<rparr>]\<rparr>"
  have first: "Close ?I ?zr ?w = Returns (None, ?zr\<lparr>sr := Some ?r1\<rparr>, ?w1)"
    by (simp add: Close_def ReadCloser_Close_def demo_reader_def demo_facade_def
        demo_opened_def go_file_Close_def)
  have second: "fst (ReadCloser_Close 0 ?w1) \<noteq> None"
    by (simp add: ReadCloser_Close_def demo_opened_def go_file_Close_def)
  have fl: "file ?zr = Some 0" by (simp add: demo_facade_def)
  from second_Close_closes_again [OF first] obtain r1 e2 zr2 w2 where
    a: "sr (?zr\<lparr>sr := Some ?r1\<rparr>) = Some r1"
    and b: "Close ?I (?zr\<lparr>sr := Some ?r1\<rparr>) ?w1 = Returns (e2, zr2, w2)"
    and c: "e2 = None \<longleftrightarrow> fst (sr_Close ?I r1) = None \<and>
              (\<forall>p. file ?zr = Some p \<longrightarrow> fst (ReadCloser_Close p ?w1) = None)"
    by blast
  from a have r1: "r1 = ?r1" by simp
  from c second fl have "e2 \<noteq> None" by simp
  with a b r1 show ?thesis by blast
qed

text \<open>
  Claim C4 as stated fails: on the facade that \<^verbatim>\<open>OpenZip\<close> returns for
  \<^verbatim>\<open>parcels.zip\<close>, with a handle that closes as an \<^verbatim>\<open>os.File\<close> does, the first
  \<^verbatim>\<open>Close\<close> returns no error and the second returns an error.
\<close>

theorem second_Close_reports_error:
  "OpenZip (demo_reader (\<lambda>k. None)) ''parcels.zip'' (demo_world (go_file_Close ''parcels.zip''))
     = (Inr (demo_facade (\<lambda>k. None)), demo_opened (go_file_Close ''parcels.zip''))
   \<and> result_of (Close (demo_reader (\<lambda>k. None)) (demo_facade (\<lambda>k. None))
         (demo_opened (go_file_Close ''parcels.zip''))) = Returns None
   \<and> result_of (Close_twice (demo_reader (\<lambda>k. None)) (demo_facade (\<lambda>k. None))
         (demo_opened (go_file_Close ''parcels.zip'')))
     = Returns (Some ''close parcels.zip: file already closed. '')"
proof -
  have f: "fmt_Errorf ''close parcels.zip: file already closed. ''
      = ''close parcels.zip: file already closed. ''"
    unfolding fmt_Errorf_def by (rule doPrintf_plain) simp
  have c1: "result_of (Close (demo_reader (\<lambda>k. None)) (demo_facade (\<lambda>k. None))
         (demo_opened (go_file_Close ''parcels.zip''))) = Returns None"
    by (simp add: Close_def ReadCloser_Close_def result_of_def demo_reader_def demo_facade_def
        demo_opened_def go_file_Close_def)
  have c2: "result_of (Close_twice (demo_reader (\<lambda>k. None)) (demo_facade (\<lambda>k. None))
         (demo_opened (go_file_Close ''parcels.zip'')))
     = Returns (Some (fmt_Errorf ''close parcels.zip: file already closed. ''))"
    by (simp add: Close_twice_def Close_def ReadCloser_Close_def result_of_def demo_reader_def
        demo_facade_def demo_opened_def go_file_Close_def)
  show ?thesis using c1 c2 unfolding f by (simp add: OpenZip_parcels)
qed

subsection \<open>Case-sensitive matching\<close>

lemma eq_fold_length: "eq_fold s t \<Longrightarrow> length s = length t"
  unfolding eq_fold_def by (rule map_eq_imp_length_eq)

lemma other_case_no_suffix:
  assumes "name = pre @ suf" and "eq_fold suf ''.shp''" and "suf \<noteq> ''.shp''"
  shows "\<not> strings_HasSuffix name ''.shp''"
proof
  assume "strings_HasSuffix name ''.shp''"
  then obtain pre' where "name = pre' @ ''.shp''" unfolding HasSuffix_iff ..
  with assms(1) have "pre @ suf = pre' @ ''.shp''" by simp
  moreover have "length suf = length ''.shp''" by (rule eq_fold_length [OF assms(2)])
  ultimately have "suf = ''.shp''" by (metis append_eq_append_conv)
  with assms(3) show False ..
qed

lemma shapesInZip_mem:
  "f \<in> set (shapesInZip rd) \<longleftrightarrow> f \<in> set (File rd) \<and> (\<exists>pre. Name f = pre @ ''.shp'')"
  by (auto simp: shapesInZip_filter)

lemma openFromZIP_exact:
  assumes "fst (openFromZIP rd name w) = Inr s"
  shows "(\<exists>g \<in> set (File rd). Name g = name \<and> Open g = Inr s)
       \<and> opened (snd (openFromZIP rd name w)) = opened w @ [name]"
proof (cases "find (\<lambda>g. Name g = name) (File rd)")
  case None
  with assms show ?thesis by (simp add: openFromZIP_find)
next
  case (Some g)
  then have "g \<in> set (File rd)" and "Name g = name"
    by (auto simp: find_Some_iff)
  with assms Some show ?thesis by (auto simp: openFromZIP_find)
qed

lemma no_geometry_entry:
  assumes "\<forall>g \<in> set (File rd). \<forall>pre suf. Name g = pre @ suf \<and> eq_fold suf ''.shp'' \<longrightarrow> suf \<noteq> ''.shp''"
  shows "shapesInZip rd = []"
proof -
  have "\<not> (\<exists>pre. Name g = pre @ ''.shp'')" if "g \<in> set (File rd)" for g
  proof
    assume "\<exists>pre. Name g = pre @ ''.shp''"
    then obtain pre where "Name g = pre @ ''.shp''" ..
    moreover have "eq_fold ''.shp'' ''.shp''" by (simp add: eq_fold_def)
    ultimately show False using assms that by blast
  qed
  then show ?thesis by (simp add: shapesInZip_filter filter_empty_conv)
qed

text \<open>
  Claim C10. An entry is a geometry entry exactly if its name ends with the bytes
  \<^verbatim>\<open>.shp\<close>; a name that ends with \<^verbatim>\<open>.shp\<close> in another case is not counted. The
  entry opened for a companion name \<^verbatim>\<open>x.dbf\<close> has exactly that name. An archive
  whose entries end with \<^verbatim>\<open>.shp\<close> in another case only makes \<^verbatim>\<open>OpenZip\<close> fail
  with "archive does not contain a .shp file" and \<^verbatim>\<open>ShapesInZip\<close> return no name.
\<close>

theorem matching_is_case_sensitive:
  "(f \<in> set (shapesInZip rd) \<longleftrightarrow> f \<in> set (File rd) \<and> (\<exists>pre. Name f = pre @ ''.shp''))
   \<and> (\<forall>pre suf. Name f = pre @ suf \<and> eq_fold suf ''.shp'' \<and> suf \<noteq> ''.shp'' \<longrightarrow>
         f \<notin> set (shapesInZip rd))
   \<and> (\<forall>s. fst (openFromZIP rd (x @ ''.dbf'') w) = Inr s \<longrightarrow>
         (\<exists>g \<in> set (File rd). Name g = x @ ''.dbf'' \<and> Open g = Inr s)
         \<and> opened (snd (openFromZIP rd (x @ ''.dbf'') w)) = opened w @ [x @ ''.dbf''])
   \<and> (\<forall>a. OpenReader_at w p = Inr a \<and>
         (\<forall>g \<in> set (File (a_Reader a)). \<forall>pre suf.
             Name g = pre @ suf \<and> eq_fold suf ''.shp'' \<longrightarrow> suf \<noteq> ''.shp'') \<longrightarrow>
         fst (OpenZip I p w) = Inl ''archive does not contain a .shp file''
         \<and> fst (ShapesInZip p w) = Inr [])"
proof (intro conjI allI impI)
  show "f \<in> set (shapesInZip rd) \<longleftrightarrow> f \<in> set (File rd) \<and> (\<exists>pre. Name f = pre @ ''.shp'')"
    by (rule shapesInZip_mem)
next
  fix pre suf
  assume "Name f = pre @ suf \<and> eq_fold suf ''.shp'' \<and> suf \<noteq> ''.shp''"
  then have "\<not> strings_HasSuffix (Name f) ''.shp''"
    using other_case_no_suffix by blast
  then show "f \<notin> set (shapesInZip rd)" by (simp add: shapesInZip_def)
next
  fix s
  assume "fst (openFromZIP rd (x @ ''.dbf'') w) = Inr s"
  from openFromZIP_exact [OF this]
  show "\<exists>g \<in> set (File rd). Name g = x @ ''.dbf'' \<and> Open g = Inr s"
    and "opened (snd (openFromZIP rd (x @ ''.dbf'') w)) = opened w @ [x @ ''.dbf'']"
    by blast+
next
  fix a
  assume h: "OpenReader_at w p = Inr a \<and>
         (\<forall>g \<in> set (File (a_Reader a)). \<forall>pre suf.
             Name g = pre @ suf \<and> eq_fold suf ''.shp'' \<longrightarrow> suf \<noteq> ''.shp'')"
  then have e: "shapesInZip (a_Reader a) = []" using no_geometry_entry by blast
  from h have o: "OpenReader_at w p = Inr a" ..
  show "fst (OpenZip I p w) = Inl ''archive does not contain a .shp file''"
    using OpenZip_none [OF o] e by simp
  show "fst (ShapesInZip p w) = Inr []"
    by (simp add: ShapesInZip_ok [OF o] e)
qed

theorem matching_is_case_sensitive_witness:
  "eq_fold ''.SHP'' ''.shp''
   \<and> entry ''DATA.SHP'' \<notin> set (shapesInZip \<lparr>File = [entry ''DATA.SHP'', entry ''DATA.DBF'']\<rparr>)
   \<and> fst (OpenZip (demo_reader (\<lambda>k. None)) ''upper.zip'' (demo_world (\<lambda>k. None)))
       = Inl ''archive does not contain a .shp file''
   \<and> fst (ShapesInZip ''upper.zip'' (demo_world (\<lambda>k. None))) = Inr []"
proof -
  have fold: "eq_fold ''.SHP'' ''.shp''"
    by code_simp
  have name: "Name (entry ''DATA.SHP'') = ''DATA'' @ ''.SHP''"
    by (simp add: entry_def)
  have disk: "OpenReader_at (demo_world (\<lambda>k. None)) ''upper.zip''
      = Inr \<lparr>a_Reader = \<lparr>File = [entry ''DATA.SHP'', entry ''DATA.DBF'']\<rparr>, a_Close = (\<lambda>k. None)\<rparr>"
    by (simp add: demo_world_def demo_disk_def)
  have "\<not> strings_HasSuffix ''DATA.SHP'' ''.shp''" "\<not> strings_HasSuffix ''DATA.DBF'' ''.shp''"
    by (simp_all add: strings_HasSuffix_def)
  then have other: "\<forall>g \<in> set (File \<lparr>File = [entry ''DATA.SHP'', entry ''DATA.DBF'']\<rparr>). \<forall>pre suf.
      Name g = pre @ suf \<and> eq_fold suf ''.shp'' \<longrightarrow> suf \<noteq> ''.shp''"
    unfolding HasSuffix_iff by (auto simp: entry_def)
  note t = matching_is_case_sensitive
    [of "entry ''DATA.SHP''" "\<lparr>File = [entry ''DATA.SHP'', entry ''DATA.DBF'']\<rparr>" "''DATA''"
        "demo_world (\<lambda>k. None)" "''upper.zip''" "demo_reader (\<lambda>k. None)"]
  from t fold name have 1:
    "entry ''DATA.SHP'' \<notin> set (shapesInZip \<lparr>File = [entry ''DATA.SHP'', entry ''DATA.DBF'']\<rparr>)"
    by blast
  from t disk other have 2:
    "fst (OpenZip (demo_reader (\<lambda>k. None)) ''upper.zip'' (demo_world (\<lambda>k. None)))
       = Inl ''archive does not contain a .shp file''
     \<and> fst (ShapesInZip ''upper.zip'' (demo_world (\<lambda>k. None))) = Inr []"
    by simp
  from fold 1 2 show ?thesis by blast
qed

end
